theory Spec2Isabelle
  imports Main
begin

section \<open>The live subscription hook \<open>useWs\<close>\<close>

text \<open>
  The hook of \<^verbatim>\<open>src/useWs.js\<close> is an effect with dependencies \<^verbatim>\<open>[url, onMsg]\<close>.
  One run of the effect that gets past \<^verbatim>\<open>new WebSocket(url)\<close> creates a socket object
  and a closure environment holding \<^verbatim>\<open>alive\<close>, \<^verbatim>\<open>ws\<close> and the captured \<^verbatim>\<open>onMsg\<close>.
  The model keeps these environments in a store, a list indexed by the order of
  construction; the index identifies the socket and the handle at once. \<^verbatim>\<open>wsRef\<close> is
  the one ref cell shared by every run of the effect.

  The browser and the runtime are the environment of the code: the \<^verbatim>\<open>WebSocket\<close>
  constructor may throw, \<^verbatim>\<open>JSON.parse\<close> may throw, the consumer callback may throw.
  They are parameters of the model. A callback is known by its identity (a number),
  which is what the dependency comparison of the effect looks at. An absent \<^verbatim>\<open>url\<close>
  (\<^verbatim>\<open>null\<close> or \<^verbatim>\<open>undefined\<close>, which the guard of line 7 treats alike) is \<open>None\<close>.

  A decoded event, like a response body further down, is a JavaScript value.
  Numbers are only carried and tested for truth, never computed with, so they are
  integers here. An object is the list of its properties.
\<close>

datatype jsval =
    JNull
  | JBool bool
  | JNum int
  | JStr string
  | JArr "jsval list"
  | JObj "(string \<times> jsval) list"

record platform =
  ctor_throws :: "string \<Rightarrow> bool"
  json_parse :: "string \<Rightarrow> jsval option"
  cb_throws :: "nat \<Rightarrow> jsval \<Rightarrow> bool"

datatype ready_state = CONNECTING | OPEN | CLOSING | CLOSED

datatype log_entry = LogWsOpen | LogWsErr | LogWsParse | LogWsError | LogWsClosed

datatype ws_op = Constructed nat string | CloseCalled nat

record handle =
  ws_url :: string
  ready :: ready_state
  alive :: bool
  on_msg :: "nat option"

record hook =
  wsRef :: "nat option"
  handles :: "handle list"
  cleanup :: "nat option"
  deps :: "(string option \<times> nat option) option"
  unmounted :: bool
  console :: "log_entry list"
  ops :: "ws_op list"
  calls :: "(nat \<times> nat \<times> jsval) list"

definition hook_init :: hook where
  "hook_init = \<lparr>wsRef = None, handles = [], cleanup = None, deps = None,
     unmounted = False, console = [], ops = [], calls = []\<rparr>"

definition modify_at :: "nat \<Rightarrow> ('a \<Rightarrow> 'a) \<Rightarrow> 'a list \<Rightarrow> 'a list" where
  "modify_at i f xs = (if i < length xs then xs[i := f (xs ! i)] else xs)"

text \<open>
  \<^verbatim>\<open>WebSocket.close()\<close> without arguments: nothing happens on a socket that is
  closing or closed, any other socket starts closing. The call itself is recorded
  in \<open>ops\<close>. The other change the cleanup makes is \<^verbatim>\<open>alive = false\<close>.
\<close>

definition kill :: "handle \<Rightarrow> handle" where
  "kill x = x\<lparr>alive := False\<rparr>"

definition closing :: "handle \<Rightarrow> handle" where
  "closing x = (if ready x = CLOSING \<or> ready x = CLOSED then x else x\<lparr>ready := CLOSING\<rparr>)"

definition ws_close :: "nat \<Rightarrow> hook \<Rightarrow> hook" where
  "ws_close i s = s\<lparr>handles := modify_at i closing (handles s), ops := ops s @ [CloseCalled i]\<rparr>"

text \<open>
  The body of the effect, lines 7 to 21. The result is the new state and the cleanup
  function the effect returns, if it returns one; the cleanup closure is identified
  by the handle whose \<^verbatim>\<open>alive\<close> it closes over.
\<close>

definition useWs_effect :: "platform \<Rightarrow> string option \<Rightarrow> nat option \<Rightarrow> hook \<Rightarrow> hook \<times> nat option" where
  "useWs_effect P url onMsg s =
     (case url of
        None \<Rightarrow> (s, None)
      | Some u \<Rightarrow>
          if u = [] then (s, None)
          else if ctor_throws P u then (s\<lparr>console := console s @ [LogWsErr]\<rparr>, None)
          else
            let h = length (handles s)
            in (s\<lparr>handles := handles s @
                     [\<lparr>ws_url = u, ready = CONNECTING, alive = True, on_msg = onMsg\<rparr>],
                   wsRef := Some h,
                   ops := ops s @ [Constructed h u]\<rparr>,
                Some h))"

text \<open>The cleanup function of line 21, for the run of the effect that made handle \<open>h\<close>.\<close>

definition useWs_cleanup :: "nat \<Rightarrow> hook \<Rightarrow> hook" where
  "useWs_cleanup h s =
     (let s1 = s\<lparr>handles := modify_at h kill (handles s)\<rparr>
      in case wsRef s1 of None \<Rightarrow> s1 | Some i \<Rightarrow> ws_close i s1)"

text \<open>
  \<^verbatim>\<open>ws.onmessage\<close>, lines 12 to 17, of the socket \<open>h\<close>. The call of \<^verbatim>\<open>onMsg\<close> sits
  inside the \<^verbatim>\<open>try\<close>, so an exception of the consumer is caught and logged like a
  parse error. Every invocation of the consumer is appended to \<open>calls\<close>, with the
  handle that made it.
\<close>

definition ws_onmessage :: "platform \<Rightarrow> nat \<Rightarrow> string \<Rightarrow> hook \<Rightarrow> hook" where
  "ws_onmessage P h d s =
     (if h < length (handles s) then
        (case json_parse P d of
           None \<Rightarrow> s\<lparr>console := console s @ [LogWsParse]\<rparr>
         | Some j \<Rightarrow>
             (case on_msg (handles s ! h) of
                None \<Rightarrow> s
              | Some c \<Rightarrow>
                  if alive (handles s ! h) then
                    (if cb_throws P c j
                     then s\<lparr>calls := calls s @ [(h, c, j)], console := console s @ [LogWsParse]\<rparr>
                     else s\<lparr>calls := calls s @ [(h, c, j)]\<rparr>)
                  else s))
      else s)"

text \<open>The other three handlers, lines 11, 18 and 19, with the socket's own state change.\<close>

definition ws_onopen :: "nat \<Rightarrow> hook \<Rightarrow> hook" where
  "ws_onopen h s =
     (if h < length (handles s) \<and> ready (handles s ! h) = CONNECTING
      then s\<lparr>handles := modify_at h (\<lambda>x. x\<lparr>ready := OPEN\<rparr>) (handles s),
             console := console s @ [LogWsOpen]\<rparr>
      else s)"

definition ws_onerror :: "nat \<Rightarrow> hook \<Rightarrow> hook" where
  "ws_onerror h s =
     (if h < length (handles s) \<and> ready (handles s ! h) \<noteq> CLOSED
      then s\<lparr>console := console s @ [LogWsError]\<rparr>
      else s)"

definition ws_onclose :: "nat \<Rightarrow> hook \<Rightarrow> hook" where
  "ws_onclose h s =
     (if h < length (handles s) \<and> ready (handles s ! h) \<noteq> CLOSED
      then s\<lparr>handles := modify_at h (\<lambda>x. x\<lparr>ready := CLOSED\<rparr>) (handles s),
             console := console s @ [LogWsClosed]\<rparr>
      else s)"

text \<open>
  The effect protocol of the runtime: a render whose dependencies differ from the
  last ones runs the pending cleanup, then the effect, and keeps the cleanup the
  effect returned; unmounting runs the pending cleanup. A frame may be delivered to
  the handler of any constructed socket at any time, whatever its ready state, so
  that nothing below relies on the browser holding frames back after \<^verbatim>\<open>close()\<close>.
\<close>

definition run_pending :: "hook \<Rightarrow> hook" where
  "run_pending s = (case cleanup s of None \<Rightarrow> s | Some h \<Rightarrow> useWs_cleanup h s)"

definition react_render :: "platform \<Rightarrow> string option \<Rightarrow> nat option \<Rightarrow> hook \<Rightarrow> hook" where
  "react_render P url onMsg s =
     (if unmounted s \<or> deps s = Some (url, onMsg) then s
      else
        let r = useWs_effect P url onMsg (run_pending s)
        in (fst r)\<lparr>cleanup := snd r, deps := Some (url, onMsg)\<rparr>)"

definition react_unmount :: "hook \<Rightarrow> hook" where
  "react_unmount s =
     (if unmounted s then s else (run_pending s)\<lparr>cleanup := None, unmounted := True\<rparr>)"

datatype event =
    Render "string option" "nat option"
  | Unmount
  | Frame nat string
  | SockOpen nat
  | SockError nat
  | SockClose nat

fun step :: "platform \<Rightarrow> event \<Rightarrow> hook \<Rightarrow> hook" where
  "step P (Render url onMsg) s = react_render P url onMsg s"
| "step P Unmount s = react_unmount s"
| "step P (Frame h d) s = ws_onmessage P h d s"
| "step P (SockOpen h) s = ws_onopen h s"
| "step P (SockError h) s = ws_onerror h s"
| "step P (SockClose h) s = ws_onclose h s"

fun run :: "platform \<Rightarrow> event list \<Rightarrow> hook \<Rightarrow> hook" where
  "run P [] s = s"
| "run P (e # es) s = run P es (step P e s)"

definition calls_of :: "nat \<Rightarrow> hook \<Rightarrow> (nat \<times> nat \<times> jsval) list" where
  "calls_of h s = filter (\<lambda>c. fst c = h) (calls s)"

text \<open>
  What holds of every state the hook can be in: the ref cell and the pending
  cleanup name constructed sockets, the pending cleanup belongs to the socket the
  ref cell holds, and a handle whose \<^verbatim>\<open>alive\<close> is still true is the one the pending
  cleanup belongs to.
\<close>

definition hook_inv :: "hook \<Rightarrow> bool" where
  "hook_inv s =
     ((case wsRef s of None \<Rightarrow> True | Some i \<Rightarrow> i < length (handles s)) \<and>
      (case cleanup s of None \<Rightarrow> True | Some h \<Rightarrow> wsRef s = Some h) \<and>
      list_all (\<lambda>h. if alive (handles s ! h) then cleanup s = Some h else True)
        [0 ..< length (handles s)] \<and>
      list_all (\<lambda>c. fst c < length (handles s)) (calls s))"

text \<open>
  The recorded socket operations name constructed sockets; \<open>close_count\<close> is the
  number of \<^verbatim>\<open>close()\<close> calls issued so far on one socket.
\<close>

fun op_handle :: "ws_op \<Rightarrow> nat" where
  "op_handle (Constructed h u) = h"
| "op_handle (CloseCalled h) = h"

definition ops_inv :: "hook \<Rightarrow> bool" where
  "ops_inv s = list_all (\<lambda>x. op_handle x < length (handles s)) (ops s)"

definition close_count :: "nat \<Rightarrow> hook \<Rightarrow> nat" where
  "close_count h s = length (filter (\<lambda>x. x = CloseCalled h) (ops s))"

text \<open>
  Events that neither re-run the effect nor unmount: frames and transport signals.
\<close>

fun transport_ev :: "event \<Rightarrow> bool" where
  "transport_ev (Render url onMsg) = False"
| "transport_ev Unmount = False"
| "transport_ev e = True"

fun frame_on :: "nat \<Rightarrow> event \<Rightarrow> bool" where
  "frame_on h (Frame k d) = (k = h)"
| "frame_on h e = False"

text \<open>
  Events that close the handle opened with dependencies \<open>d\<close>: unmounting, and a
  render with other dependencies.
\<close>

fun tears_down :: "string option \<times> nat option \<Rightarrow> event \<Rightarrow> bool" where
  "tears_down d Unmount = True"
| "tears_down d (Render url onMsg) = ((url, onMsg) \<noteq> d)"
| "tears_down d e = False"

text \<open>What one frame adds to the console of a live handle with consumer \<open>c\<close>.\<close>

definition frame_log :: "platform \<Rightarrow> nat \<Rightarrow> string \<Rightarrow> log_entry list" where
  "frame_log P c d =
     (case json_parse P d of
        None \<Rightarrow> [LogWsParse]
      | Some j \<Rightarrow> if cb_throws P c j then [LogWsParse] else [])"

text \<open>
  A platform for the worked examples: the constructor accepts the two WebSocket
  schemes and throws on anything else, three payloads parse, and consumer \<open>9\<close> throws
  on every event.
\<close>

definition example_platform :: platform where
  "example_platform =
     \<lparr>ctor_throws = (\<lambda>u. take 5 u \<noteq> ''ws://'' \<and> take 6 u \<noteq> ''wss://''),
      json_parse = map_of [(''true'', JBool True), (''42'', JNum 42), (''null'', JNull)],
      cb_throws = (\<lambda>c j. c = 9)\<rparr>"

section \<open>The REST views\<close>

text \<open>
  Truth of a value, as \<^verbatim>\<open>||\<close>, \<^verbatim>\<open>&&\<close> and \<^verbatim>\<open>?:\<close> test it, and \<^verbatim>\<open>Array.isArray\<close>.
\<close>

fun truthy :: "jsval \<Rightarrow> bool" where
  "truthy JNull = False"
| "truthy (JBool b) = b"
| "truthy (JNum n) = (n \<noteq> 0)"
| "truthy (JStr s) = (s \<noteq> [])"
| "truthy (JArr xs) = True"
| "truthy (JObj kvs) = True"

fun isArray :: "jsval \<Rightarrow> bool" where
  "isArray (JArr xs) = True"
| "isArray v = False"

text \<open>
  The name of an element of an array or of a character of a string is its index in
  decimal, without leading zeros.
\<close>

definition digit_val :: "char \<Rightarrow> nat option" where
  "digit_val c =
     map_of [(CHR ''0'', 0), (CHR ''1'', 1), (CHR ''2'', 2), (CHR ''3'', 3), (CHR ''4'', 4),
             (CHR ''5'', 5), (CHR ''6'', 6), (CHR ''7'', 7), (CHR ''8'', 8), (CHR ''9'', 9)] c"

fun index_value :: "nat \<Rightarrow> string \<Rightarrow> nat option" where
  "index_value acc [] = Some acc"
| "index_value acc (c # cs) =
     (case digit_val c of None \<Rightarrow> None | Some d \<Rightarrow> index_value (10 * acc + d) cs)"

definition index_key :: "string \<Rightarrow> nat option" where
  "index_key k =
     (if k = [] \<or> (hd k = CHR ''0'' \<and> tl k \<noteq> []) then None else index_value 0 k)"

text \<open>The own enumerable properties of a value, as \<^verbatim>\<open>Object.assign\<close> reads its source.\<close>

fun own_get :: "jsval \<Rightarrow> string \<Rightarrow> jsval option" where
  "own_get (JObj kvs) k = map_of kvs k"
| "own_get (JArr xs) k =
     (case index_key k of
        None \<Rightarrow> None
      | Some i \<Rightarrow> if i < length xs then Some (xs ! i) else None)"
| "own_get (JStr s) k =
     (case index_key k of
        None \<Rightarrow> None
      | Some i \<Rightarrow> if i < length s then Some (JStr [s ! i]) else None)"
| "own_get v k = None"

definition object_assign :: "(string \<rightharpoonup> jsval) \<Rightarrow> jsval \<Rightarrow> (string \<rightharpoonup> jsval)" where
  "object_assign target src = (\<lambda>k. case own_get src k of Some v \<Rightarrow> Some v | None \<Rightarrow> target k)"

text \<open>
  What a request settles with: a response (the views read only its \<^verbatim>\<open>data\<close>), or an
  error with a message and, when the server answered, the response.
\<close>

record response =
  r_status :: int
  r_data :: jsval

record axios_error =
  e_message :: string
  e_response :: "response option"

record err_info =
  message :: string
  status :: "int option"
  data :: "jsval option"

datatype http_text = StatusText int | NotAvailable

text \<open>
  What a view shows, block by block, each block with the values put into its
  markup; an absent value (\<^verbatim>\<open>undefined\<close>) is \<open>None\<close>. The error block carries its
  three texts: the message, the text after \<^verbatim>\<open>HTTP:\<close>, and the value \<^verbatim>\<open>JSON.stringify\<close>
  is applied to. A row of the roster carries name, roll and email (or the dash); a
  row of the logs carries the name, the value the date is made from, and whether
  \<^verbatim>\<open>present\<close> is true.

  A render that throws is \<open>Inl\<close>. The component throws a \<open>TypeError\<close> when \<^verbatim>\<open>list.map\<close>
  is not a function (the list is not an array) and when a property of a \<^verbatim>\<open>null\<close>
  element is read. The runtime throws when a value placed in the markup is a plain
  object, alone or inside an array: objects are not valid children. Strings and
  numbers are text; booleans, \<^verbatim>\<open>null\<close> and \<^verbatim>\<open>undefined\<close> show nothing.
\<close>

datatype node =
    LoadingNode
  | ErrorNode string http_text "jsval option"
  | StudentRow "jsval option" "jsval option" jsval
  | LogRow "jsval option" "jsval option" bool
  | EmptyNode
  | ErrorCard string
  | StatCards "jsval option" "jsval option"

datatype render_error = TypeError | InvalidChild

fun valid_child :: "jsval \<Rightarrow> bool" where
  "valid_child (JObj kvs) = False"
| "valid_child (JArr xs) = list_all valid_child xs"
| "valid_child v = True"

fun valid_opt :: "jsval option \<Rightarrow> bool" where
  "valid_opt None = True"
| "valid_opt (Some v) = valid_child v"

text \<open>
  The properties read from an element (\<^verbatim>\<open>id\<close>, \<^verbatim>\<open>name\<close>, \<^verbatim>\<open>student_name\<close> and so on)
  are neither indices nor inherited, so reading one from a value other than \<^verbatim>\<open>null\<close>
  is \<open>own_get\<close>. The dash is U+2014, three bytes in UTF-8.
\<close>

definition em_dash :: string where
  "em_dash = [CHR 0xE2, CHR 0x80, CHR 0x94]"

definition or_else :: "jsval option \<Rightarrow> jsval option \<Rightarrow> jsval option" where
  "or_else a b = (case a of None \<Rightarrow> b | Some v \<Rightarrow> if truthy v then Some v else b)"

definition student_row :: "jsval \<Rightarrow> node" where
  "student_row x =
     StudentRow (own_get x ''name'') (own_get x ''roll'')
       (case own_get x ''email'' of
          None \<Rightarrow> JStr em_dash
        | Some v \<Rightarrow> if truthy v then v else JStr em_dash)"

definition log_row :: "jsval \<Rightarrow> node" where
  "log_row x =
     LogRow (or_else (own_get x ''student_name'') (own_get x ''student_roll''))
       (own_get x ''entry_time'')
       (case own_get x ''present'' of None \<Rightarrow> False | Some v \<Rightarrow> truthy v)"

fun valid_node :: "node \<Rightarrow> bool" where
  "valid_node (StudentRow a b c) = (valid_opt a \<and> valid_opt b \<and> valid_child c)"
| "valid_node (LogRow a t p) = valid_opt a"
| "valid_node (StatCards a b) = (valid_opt a \<and> valid_opt b)"
| "valid_node n = True"

text \<open>
  The runtime looks at the children once the component has returned its markup, so
  an exception of the component itself comes first.
\<close>

definition commit :: "node list \<Rightarrow> render_error + node list" where
  "commit ns = (if list_all valid_node ns then Inr ns else Inl InvalidChild)"

datatype settle = Resolved response | Rejected axios_error | Unmounted

definition error_block :: "err_info \<Rightarrow> node" where
  "error_block e =
     ErrorNode (message e)
       (case status e of
          None \<Rightarrow> NotAvailable
        | Some n \<Rightarrow> if n \<noteq> 0 then StatusText n else NotAvailable)
       (data e)"

definition surfaced :: "axios_error \<Rightarrow> err_info" where
  "surfaced e = \<lparr>message = e_message e,
     status = map_option r_status (e_response e),
     data = map_option r_data (e_response e)\<rparr>"

subsection \<open>Students\<close>

record students =
  st_list :: jsval
  st_loading :: bool
  st_err :: "err_info option"
  st_mounted :: bool

definition students_init :: students where
  "students_init = \<lparr>st_list = JArr [], st_loading = True, st_err = None, st_mounted = True\<rparr>"

definition students_finally :: "students \<Rightarrow> students" where
  "students_finally s = (if st_mounted s then s\<lparr>st_loading := False\<rparr> else s)"

fun students_step :: "settle \<Rightarrow> students \<Rightarrow> students" where
  "students_step (Resolved r) s =
     students_finally
       (if st_mounted s
        then s\<lparr>st_list := (if truthy (r_data r) then r_data r else JArr [])\<rparr>
        else s)"
| "students_step (Rejected e) s =
     students_finally (if st_mounted s then s\<lparr>st_err := Some (surfaced e)\<rparr> else s)"
| "students_step Unmounted s = s\<lparr>st_mounted := False\<rparr>"

definition students_view :: "students \<Rightarrow> render_error + node list" where
  "students_view s =
     (case st_list s of
        JArr xs \<Rightarrow>
          if JNull \<in> set xs then Inl TypeError
          else
            commit ((if st_loading s then [LoadingNode] else []) @
               (case st_err s of None \<Rightarrow> [] | Some e \<Rightarrow> [error_block e]) @
               map student_row xs @
               (if xs = [] \<and> \<not> st_loading s \<and> st_err s = None then [EmptyNode] else []))
      | _ \<Rightarrow> Inl TypeError)"

subsection \<open>Logs\<close>

record logs =
  lg_logs :: jsval
  lg_loading :: bool
  lg_err :: "err_info option"
  lg_mounted :: bool

definition logs_init :: logs where
  "logs_init = \<lparr>lg_logs = JArr [], lg_loading = True, lg_err = None, lg_mounted = True\<rparr>"

definition logs_finally :: "logs \<Rightarrow> logs" where
  "logs_finally s = (if lg_mounted s then s\<lparr>lg_loading := False\<rparr> else s)"

fun logs_step :: "settle \<Rightarrow> logs \<Rightarrow> logs" where
  "logs_step (Resolved r) s =
     logs_finally
       (if lg_mounted s
        then s\<lparr>lg_logs := (if isArray (r_data r) then r_data r else JArr [])\<rparr>
        else s)"
| "logs_step (Rejected e) s =
     logs_finally (if lg_mounted s then s\<lparr>lg_err := Some (surfaced e)\<rparr> else s)"
| "logs_step Unmounted s = s\<lparr>lg_mounted := False\<rparr>"

fun logs_run :: "settle list \<Rightarrow> logs \<Rightarrow> logs" where
  "logs_run [] s = s"
| "logs_run (e # es) s = logs_run es (logs_step e s)"

definition logs_view :: "logs \<Rightarrow> render_error + node list" where
  "logs_view s =
     (case lg_logs s of
        JArr xs \<Rightarrow>
          if JNull \<in> set xs then Inl TypeError
          else
            commit ((if lg_loading s then [LoadingNode] else []) @
               (case lg_err s of None \<Rightarrow> [] | Some e \<Rightarrow> [error_block e]) @
               map log_row xs @
               (if xs = [] \<and> \<not> lg_loading s \<and> lg_err s = None then [EmptyNode] else []))
      | _ \<Rightarrow> Inl TypeError)"

subsection \<open>Dashboard\<close>

datatype warned = WarnMessage string | WarnError axios_error

record dashboard =
  db_stats :: "string \<rightharpoonup> jsval"
  db_loading :: bool
  db_err :: "string option"
  db_mounted :: bool
  db_console :: "warned list"

definition stats0 :: "string \<rightharpoonup> jsval" where
  "stats0 = [''students'' \<mapsto> JNum 0, ''todays'' \<mapsto> JNum 0]"

definition dashboard_init :: dashboard where
  "dashboard_init = \<lparr>db_stats = stats0, db_loading = True, db_err = None,
     db_mounted = True, db_console = []\<rparr>"

definition dashboard_finally :: "dashboard \<Rightarrow> dashboard" where
  "dashboard_finally s = (if db_mounted s then s\<lparr>db_loading := False\<rparr> else s)"

fun dashboard_step :: "settle \<Rightarrow> dashboard \<Rightarrow> dashboard" where
  "dashboard_step (Resolved r) s =
     dashboard_finally
       (if db_mounted s \<and> truthy (r_data r)
        then s\<lparr>db_stats := object_assign stats0 (r_data r)\<rparr>
        else s)"
| "dashboard_step (Rejected e) s =
     dashboard_finally
       (let s1 = s\<lparr>db_console := db_console s @
                  [if e_message e \<noteq> [] then WarnMessage (e_message e) else WarnError e]\<rparr>
        in if db_mounted s1
           then s1\<lparr>db_err := Some (if e_message e \<noteq> [] then e_message e else ''Not available'')\<rparr>
           else s1)"
| "dashboard_step Unmounted s = s\<lparr>db_mounted := False\<rparr>"

definition dashboard_view :: "dashboard \<Rightarrow> render_error + node list" where
  "dashboard_view s =
     commit
       (if db_loading s then [LoadingNode]
        else case db_err s of
          Some m \<Rightarrow>
            if m \<noteq> [] then [ErrorCard m]
            else [StatCards (db_stats s ''students'') (db_stats s ''todays'')]
        | None \<Rightarrow> [StatCards (db_stats s ''students'') (db_stats s ''todays'')])"

subsection \<open>The REST client\<close>

text \<open>
  \<^verbatim>\<open>src/api.js\<close> makes a client from the environment. The three views do not use
  it: each calls \<^verbatim>\<open>axios.get\<close> of the library's default client with a path, so their
  requests carry whatever the default configuration is, a parameter here.
\<close>

record axios_config =
  baseURL :: "string option"
  timeout :: nat

definition BACK :: "(string \<rightharpoonup> string) \<Rightarrow> string" where
  "BACK env =
     (case env ''REACT_APP_BACKEND'' of
        None \<Rightarrow> ''http://127.0.0.1:8000''
      | Some v \<Rightarrow> if v \<noteq> [] then v else ''http://127.0.0.1:8000'')"

definition api :: "(string \<rightharpoonup> string) \<Rightarrow> axios_config" where
  "api env = \<lparr>baseURL = Some (BACK env), timeout = 10000\<rparr>"

record rest_call =
  config :: axios_config
  path :: string

definition students_call :: "axios_config \<Rightarrow> rest_call" where
  "students_call defaults = \<lparr>config = defaults, path = ''/api/v1/students''\<rparr>"

definition logs_call :: "axios_config \<Rightarrow> rest_call" where
  "logs_call defaults = \<lparr>config = defaults, path = ''/api/v1/attendance/logs''\<rparr>"

definition dashboard_call :: "axios_config \<Rightarrow> rest_call" where
  "dashboard_call defaults = \<lparr>config = defaults, path = ''/api/v1/dashboard/summary''\<rparr>"

definition rest_calls :: "axios_config \<Rightarrow> rest_call list" where
  "rest_calls defaults = [students_call defaults, logs_call defaults, dashboard_call defaults]"

text \<open>The library's defaults when nothing sets them: no base URL, no timeout.\<close>

definition axios_defaults :: axios_config where
  "axios_defaults = \<lparr>baseURL = None, timeout = 0\<rparr>"

section \<open>Properties of the hook\<close>

subsection \<open>Stores and cleanup\<close>

lemma length_modify_at: "length (modify_at i f xs) = length xs"
  by (simp add: modify_at_def)

lemma nth_modify_at:
  "h < length xs \<Longrightarrow> modify_at i f xs ! h = (if h = i then f (xs ! h) else xs ! h)"
  by (simp add: modify_at_def)

lemma handles_useWs_cleanup_len: "length (handles (useWs_cleanup h s)) = length (handles s)"
  by (simp add: useWs_cleanup_def ws_close_def kill_def closing_def Let_def length_modify_at
        split: option.splits)

lemma alive_useWs_cleanup:
  "k < length (handles s) \<Longrightarrow>
   alive (handles (useWs_cleanup h s) ! k) = (k \<noteq> h \<and> alive (handles s ! k))"
  by (simp add: useWs_cleanup_def ws_close_def kill_def closing_def Let_def length_modify_at
        nth_modify_at split: option.splits)

lemma on_msg_useWs_cleanup:
  "k < length (handles s) \<Longrightarrow> on_msg (handles (useWs_cleanup h s) ! k) = on_msg (handles s ! k)"
  by (simp add: useWs_cleanup_def ws_close_def kill_def closing_def Let_def length_modify_at
        nth_modify_at split: option.splits)

lemma ws_url_useWs_cleanup:
  "k < length (handles s) \<Longrightarrow> ws_url (handles (useWs_cleanup h s) ! k) = ws_url (handles s ! k)"
  by (simp add: useWs_cleanup_def ws_close_def kill_def closing_def Let_def length_modify_at
        nth_modify_at split: option.splits)

lemma calls_useWs_cleanup: "calls (useWs_cleanup h s) = calls s"
  by (simp add: useWs_cleanup_def ws_close_def kill_def closing_def Let_def split: option.splits)

lemma misc_useWs_cleanup:
  "console (useWs_cleanup h s) = console s"
  "wsRef (useWs_cleanup h s) = wsRef s"
  "cleanup (useWs_cleanup h s) = cleanup s"
  "deps (useWs_cleanup h s) = deps s"
  "unmounted (useWs_cleanup h s) = unmounted s"
  by (simp_all add: useWs_cleanup_def ws_close_def kill_def closing_def Let_def split: option.splits)

text \<open>A handle whose \<^verbatim>\<open>alive\<close> is false stays so, and invokes nothing.\<close>

lemma step_length: "length (handles s) \<le> length (handles (step P e s))"
  by (cases e)
     (auto simp: react_render_def react_unmount_def run_pending_def useWs_effect_def Let_def
        handles_useWs_cleanup_len ws_onmessage_def ws_onopen_def ws_onerror_def ws_onclose_def
        length_modify_at split: option.splits)

lemma step_dead:
  assumes "k < length (handles s)" "\<not> alive (handles s ! k)"
  shows "\<not> alive (handles (step P e s) ! k)"
  using assms
  by (cases e)
     (auto simp: react_render_def react_unmount_def run_pending_def useWs_effect_def Let_def
        handles_useWs_cleanup_len alive_useWs_cleanup nth_append
        ws_onmessage_def ws_onopen_def ws_onerror_def ws_onclose_def
        length_modify_at nth_modify_at split: option.splits)

lemma step_calls_dead:
  assumes "k < length (handles s)" "\<not> alive (handles s ! k)"
  shows "calls_of k (step P e s) = calls_of k s"
  using assms
  by (cases e)
     (auto simp: calls_of_def react_render_def react_unmount_def run_pending_def useWs_effect_def Let_def
        calls_useWs_cleanup
        ws_onmessage_def ws_onopen_def ws_onerror_def ws_onclose_def
        split: option.splits)

lemma run_calls_dead:
  "k < length (handles s) \<Longrightarrow> \<not> alive (handles s ! k) \<Longrightarrow> calls_of k (run P es s) = calls_of k s"
proof (induction es arbitrary: s)
  case Nil
  then show ?case by simp
next
  case (Cons e es)
  have "k < length (handles (step P e s))"
    using Cons.prems(1) step_length [of s P e] by simp
  moreover have "\<not> alive (handles (step P e s) ! k)"
    using Cons.prems by (rule step_dead)
  ultimately have "calls_of k (run P es (step P e s)) = calls_of k (step P e s)"
    by (rule Cons.IH)
  then show ?case
    using step_calls_dead [OF Cons.prems] by simp
qed

lemma run_append: "run P (xs @ ys) s = run P ys (run P xs s)"
  by (induction xs arbitrary: s) simp_all

subsection \<open>The invariant\<close>

lemma hook_inv_init: "hook_inv hook_init"
  by (simp add: hook_inv_def hook_init_def)

lemma hook_inv_iff:
  "hook_inv s \<longleftrightarrow>
     (\<forall>i. wsRef s = Some i \<longrightarrow> i < length (handles s)) \<and>
     (\<forall>h. cleanup s = Some h \<longrightarrow> wsRef s = Some h) \<and>
     (\<forall>k < length (handles s). alive (handles s ! k) \<longrightarrow> cleanup s = Some k) \<and>
     (\<forall>c \<in> set (calls s). fst c < length (handles s))"
proof -
  have a: "(case wsRef s of None \<Rightarrow> True | Some i \<Rightarrow> i < length (handles s)) \<longleftrightarrow>
      (\<forall>i. wsRef s = Some i \<longrightarrow> i < length (handles s))"
    by (cases "wsRef s") simp_all
  have b: "(case cleanup s of None \<Rightarrow> True | Some h \<Rightarrow> wsRef s = Some h) \<longleftrightarrow>
      (\<forall>h. cleanup s = Some h \<longrightarrow> wsRef s = Some h)"
    by (cases "cleanup s") simp_all
  have c: "list_all (\<lambda>h. if alive (handles s ! h) then cleanup s = Some h else True)
        [0 ..< length (handles s)] \<longleftrightarrow>
      (\<forall>k < length (handles s). alive (handles s ! k) \<longrightarrow> cleanup s = Some k)"
    by (auto simp: list_all_iff)
  show ?thesis
    unfolding hook_inv_def a b c by (simp add: list_all_iff)
qed

lemma hook_inv_frame:
  assumes "hook_inv s"
    and "wsRef s' = wsRef s" and "cleanup s' = cleanup s"
    and "length (handles s') = length (handles s)"
    and "\<forall>k < length (handles s). alive (handles s' ! k) \<longrightarrow> alive (handles s ! k)"
    and "\<forall>c \<in> set (calls s'). c \<in> set (calls s) \<or> fst c < length (handles s)"
  shows "hook_inv s'"
proof -
  have a: "\<forall>i. wsRef s = Some i \<longrightarrow> i < length (handles s)"
    and b: "\<forall>h. cleanup s = Some h \<longrightarrow> wsRef s = Some h"
    and c: "\<forall>k < length (handles s). alive (handles s ! k) \<longrightarrow> cleanup s = Some k"
    and d: "\<forall>c \<in> set (calls s). fst c < length (handles s)"
    using assms(1) unfolding hook_inv_iff by blast+
  have "\<forall>i. wsRef s' = Some i \<longrightarrow> i < length (handles s')"
    using a by (simp add: assms(2,4))
  moreover have "\<forall>h. cleanup s' = Some h \<longrightarrow> wsRef s' = Some h"
    using b by (simp add: assms(2,3))
  moreover have "\<forall>k < length (handles s'). alive (handles s' ! k) \<longrightarrow> cleanup s' = Some k"
    using c assms(5) by (simp add: assms(3,4))
  moreover have "\<forall>c \<in> set (calls s'). fst c < length (handles s')"
    using d assms(6) by (auto simp: assms(4))
  ultimately show ?thesis
    unfolding hook_inv_iff by blast
qed

lemma hook_inv_dead:
  assumes "\<forall>i. wsRef s' = Some i \<longrightarrow> i < length (handles s')"
    and "cleanup s' = None"
    and "\<forall>k < length (handles s'). \<not> alive (handles s' ! k)"
    and "\<forall>c \<in> set (calls s'). fst c < length (handles s')"
  shows "hook_inv s'"
  using assms unfolding hook_inv_iff by simp

lemma run_pending_facts:
  "length (handles (run_pending s)) = length (handles s)"
  "calls (run_pending s) = calls s"
  "wsRef (run_pending s) = wsRef s"
  "console (run_pending s) = console s"
  "unmounted (run_pending s) = unmounted s"
  "deps (run_pending s) = deps s"
  by (simp_all add: run_pending_def handles_useWs_cleanup_len calls_useWs_cleanup
        misc_useWs_cleanup split: option.splits)

lemma hook_inv_alive:
  "hook_inv s \<Longrightarrow> k < length (handles s) \<Longrightarrow> alive (handles s ! k) \<Longrightarrow> cleanup s = Some k"
  unfolding hook_inv_iff by blast

lemma run_pending_dead:
  assumes "hook_inv s" "k < length (handles s)"
  shows "\<not> alive (handles (run_pending s) ! k)"
proof (cases "cleanup s")
  case None
  have "\<not> alive (handles s ! k)"
  proof
    assume "alive (handles s ! k)"
    then have "cleanup s = Some k"
      using assms by (simp add: hook_inv_alive)
    then show False using None by simp
  qed
  then show ?thesis
    using None by (simp add: run_pending_def)
next
  case (Some h)
  have "alive (handles s ! k) \<longrightarrow> k = h"
  proof
    assume "alive (handles s ! k)"
    then have "cleanup s = Some k"
      using assms by (simp add: hook_inv_alive)
    then show "k = h" using Some by simp
  qed
  then show ?thesis
    using Some assms(2) by (auto simp: run_pending_def alive_useWs_cleanup)
qed

lemma hook_inv_render:
  assumes "hook_inv s"
  shows "hook_inv (react_render P url onMsg s)"
proof (cases "unmounted s \<or> deps s = Some (url, onMsg)")
  case True
  then show ?thesis using assms by (simp add: react_render_def)
next
  case False
  let ?p = "run_pending s"
  let ?s' = "react_render P url onMsg s"
  have dead: "\<forall>k < length (handles s). \<not> alive (handles ?p ! k)"
    using assms by (simp add: run_pending_dead)
  have ref: "\<forall>i. wsRef s = Some i \<longrightarrow> i < length (handles s)"
    using assms unfolding hook_inv_iff by blast
  have cl: "\<forall>c \<in> set (calls s). fst c < length (handles s)"
    using assms unfolding hook_inv_iff by blast
  show ?thesis
  proof (cases "url = None \<or> url = Some [] \<or> ctor_throws P (the url)")
    case True
    then have "cleanup ?s' = None"
      and "handles ?s' = handles ?p"
      and "wsRef ?s' = wsRef s"
      and "calls ?s' = calls s"
      using False
      by (auto simp: react_render_def useWs_effect_def run_pending_facts split: option.splits)
    then show ?thesis
      using dead ref cl by (intro hook_inv_dead) (simp_all add: run_pending_facts)
  next
    case ok: False
    then obtain u where u: "url = Some u" "u \<noteq> []" "\<not> ctor_throws P u"
      by (cases url) auto
    let ?h = "length (handles s)"
    have c: "cleanup ?s' = Some ?h"
      and h: "handles ?s' =
         handles ?p @ [\<lparr>ws_url = u, ready = CONNECTING, alive = True, on_msg = onMsg\<rparr>]"
      and w: "wsRef ?s' = Some ?h"
      and k: "calls ?s' = calls s"
      using False u
      by (simp_all add: react_render_def useWs_effect_def run_pending_facts Let_def)
    have "\<forall>k < length (handles ?s'). alive (handles ?s' ! k) \<longrightarrow> k = ?h"
      using dead by (simp add: h run_pending_facts nth_append)
    moreover have "\<forall>c \<in> set (calls ?s'). fst c < length (handles ?s')"
      using cl by (simp add: h k run_pending_facts less_Suc_eq)
    ultimately show ?thesis
      unfolding hook_inv_iff by (auto simp: c w h run_pending_facts)
  qed
qed

lemma hook_inv_unmount:
  assumes "hook_inv s"
  shows "hook_inv (react_unmount s)"
proof (cases "unmounted s")
  case True
  then show ?thesis using assms by (simp add: react_unmount_def)
next
  case False
  have dead: "\<forall>k < length (handles s). \<not> alive (handles (run_pending s) ! k)"
    using assms by (simp add: run_pending_dead)
  have ref: "\<forall>i. wsRef s = Some i \<longrightarrow> i < length (handles s)"
    using assms unfolding hook_inv_iff by blast
  have cl: "\<forall>c \<in> set (calls s). fst c < length (handles s)"
    using assms unfolding hook_inv_iff by blast
  show ?thesis
    using False dead ref cl
    by (intro hook_inv_dead) (simp_all add: react_unmount_def run_pending_facts)
qed

lemma hook_inv_onmessage:
  assumes "hook_inv s"
  shows "hook_inv (ws_onmessage P h d s)"
  by (rule hook_inv_frame [OF assms])
     (auto simp: ws_onmessage_def split: option.splits)

lemma hook_inv_onopen:
  assumes "hook_inv s"
  shows "hook_inv (ws_onopen h s)"
  by (rule hook_inv_frame [OF assms])
     (auto simp: ws_onopen_def length_modify_at nth_modify_at)

lemma hook_inv_onerror:
  assumes "hook_inv s"
  shows "hook_inv (ws_onerror h s)"
  by (rule hook_inv_frame [OF assms]) (auto simp: ws_onerror_def)

lemma hook_inv_onclose:
  assumes "hook_inv s"
  shows "hook_inv (ws_onclose h s)"
  by (rule hook_inv_frame [OF assms])
     (auto simp: ws_onclose_def length_modify_at nth_modify_at)

lemma hook_inv_step: "hook_inv s \<Longrightarrow> hook_inv (step P e s)"
  by (cases e)
     (simp_all add: hook_inv_render hook_inv_unmount hook_inv_onmessage hook_inv_onopen
        hook_inv_onerror hook_inv_onclose)

lemma hook_inv_run: "hook_inv s \<Longrightarrow> hook_inv (run P es s)"
  by (induction es arbitrary: s) (simp_all add: hook_inv_step)

subsection \<open>Opening\<close>

lemma render_open:
  assumes "\<not> unmounted s" "deps s \<noteq> Some (Some u, cb)" "u \<noteq> []" "\<not> ctor_throws P u"
  shows "react_render P (Some u) cb s =
     (run_pending s)\<lparr>handles := handles (run_pending s) @
           [\<lparr>ws_url = u, ready = CONNECTING, alive = True, on_msg = cb\<rparr>],
        wsRef := Some (length (handles s)),
        ops := ops (run_pending s) @ [Constructed (length (handles s)) u],
        cleanup := Some (length (handles s)),
        deps := Some (Some u, cb)\<rparr>"
  using assms
  by (simp add: react_render_def useWs_effect_def Let_def run_pending_facts)

lemma render_open_facts:
  assumes "\<not> unmounted s" "deps s \<noteq> Some (Some u, cb)" "u \<noteq> []" "\<not> ctor_throws P u"
  shows "cleanup (react_render P (Some u) cb s) = Some (length (handles s))"
    and "length (handles (react_render P (Some u) cb s)) = Suc (length (handles s))"
    and "calls (react_render P (Some u) cb s) = calls s"
    and "\<not> unmounted (react_render P (Some u) cb s)"
    and "deps (react_render P (Some u) cb s) = Some (Some u, cb)"
    and "handles (react_render P (Some u) cb s) ! length (handles s) =
           \<lparr>ws_url = u, ready = CONNECTING, alive = True, on_msg = cb\<rparr>"
  using assms
  by (simp_all add: render_open [OF assms] run_pending_facts nth_append)

lemma calls_of_fresh:
  assumes "hook_inv s"
  shows "calls_of (length (handles s)) s = []"
proof -
  have "\<forall>c \<in> set (calls s). fst c < length (handles s)"
    using assms unfolding hook_inv_iff by blast
  then have "\<forall>c \<in> set (calls s). fst c \<noteq> length (handles s)"
    by auto
  then show ?thesis
    by (simp add: calls_of_def filter_empty_conv)
qed

subsection \<open>Transport events\<close>

lemma transport_step_facts:
  assumes "transport_ev e"
  shows "cleanup (step P e s) = cleanup s"
    and "unmounted (step P e s) = unmounted s"
    and "deps (step P e s) = deps s"
    and "wsRef (step P e s) = wsRef s"
    and "ops (step P e s) = ops s"
    and "length (handles (step P e s)) = length (handles s)"
  using assms
  by (cases e; simp add: ws_onmessage_def ws_onopen_def ws_onerror_def ws_onclose_def
        length_modify_at split: option.splits)+

lemma transport_step_count:
  assumes "transport_ev e"
  shows "length (calls_of h (step P e s)) \<le> length (calls_of h s) + (if frame_on h e then 1 else 0)"
  using assms
  by (cases e)
     (auto simp: calls_of_def ws_onmessage_def ws_onopen_def ws_onerror_def ws_onclose_def
        split: option.splits)

lemma transport_run_facts:
  assumes "list_all transport_ev es"
  shows "cleanup (run P es s) = cleanup s"
    and "unmounted (run P es s) = unmounted s"
    and "deps (run P es s) = deps s"
    and "wsRef (run P es s) = wsRef s"
    and "ops (run P es s) = ops s"
    and "length (handles (run P es s)) = length (handles s)"
  using assms
  by (induction es arbitrary: s; simp add: transport_step_facts)+

lemma transport_run_count:
  assumes "list_all transport_ev es"
  shows "length (calls_of h (run P es s)) \<le> length (calls_of h s) + length (filter (frame_on h) es)"
  using assms
proof (induction es arbitrary: s)
  case Nil
  then show ?case by simp
next
  case (Cons e es)
  have "length (calls_of h (run P es (step P e s))) \<le>
      length (calls_of h (step P e s)) + length (filter (frame_on h) es)"
    using Cons by simp
  moreover have "length (calls_of h (step P e s)) \<le>
      length (calls_of h s) + (if frame_on h e then 1 else 0)"
    using Cons.prems by (simp add: transport_step_count)
  ultimately show ?case by (auto split: if_splits)
qed

subsection \<open>Closing\<close>

lemma tears_down_dead:
  assumes "hook_inv s" "\<not> unmounted s" "cleanup s = Some h" "deps s = Some d" "tears_down d e"
  shows "h < length (handles (step P e s)) \<and> \<not> alive (handles (step P e s) ! h)"
proof -
  have h: "h < length (handles s)"
    using assms(1,3) unfolding hook_inv_iff by blast
  have dead: "\<not> alive (handles (run_pending s) ! h)"
    using assms(1) h by (rule run_pending_dead)
  show ?thesis
  proof (cases e)
    case (Render url onMsg)
    then have "deps s \<noteq> Some (url, onMsg)"
      using assms(4,5) by auto
    then show ?thesis
      using Render assms(2) h dead
      by (auto simp: react_render_def useWs_effect_def Let_def run_pending_facts nth_append
            split: option.splits)
  next
    case Unmount
    then show ?thesis
      using assms(2) h dead by (simp add: react_unmount_def run_pending_facts)
  qed (use assms(5) in simp_all)
qed

subsection \<open>Frames on a live handle\<close>

lemma onmessage_live:
  assumes "h < length (handles s)" "alive (handles s ! h)" "on_msg (handles s ! h) = Some c"
  shows "ws_onmessage P h d s =
     s\<lparr>calls := calls s @ map (\<lambda>j. (h, c, j)) (List.map_filter (json_parse P) [d]),
       console := console s @ frame_log P c d\<rparr>"
  using assms
  by (cases "json_parse P d") (simp_all add: ws_onmessage_def frame_log_def List.map_filter_simps)

lemma frames_live:
  assumes "h < length (handles s)" "alive (handles s ! h)" "on_msg (handles s ! h) = Some c"
  shows "run P (map (Frame h) ds) s =
     s\<lparr>calls := calls s @ map (\<lambda>j. (h, c, j)) (List.map_filter (json_parse P) ds),
       console := console s @ concat (map (frame_log P c) ds)\<rparr>"
  using assms
proof (induction ds arbitrary: s)
  case Nil
  then show ?case by (simp add: List.map_filter_simps)
next
  case (Cons d ds)
  let ?s = "ws_onmessage P h d s"
  have eq: "?s = s\<lparr>calls := calls s @ map (\<lambda>j. (h, c, j)) (List.map_filter (json_parse P) [d]),
       console := console s @ frame_log P c d\<rparr>"
    using Cons.prems by (rule onmessage_live)
  have "h < length (handles ?s)" "alive (handles ?s ! h)" "on_msg (handles ?s ! h) = Some c"
    using Cons.prems by (simp_all add: eq)
  then have "run P (map (Frame h) ds) ?s =
     ?s\<lparr>calls := calls ?s @ map (\<lambda>j. (h, c, j)) (List.map_filter (json_parse P) ds),
       console := console ?s @ concat (map (frame_log P c) ds)\<rparr>"
    by (rule Cons.IH)
  then show ?case
    by (cases "json_parse P d") (simp_all add: eq List.map_filter_simps)
qed

text \<open>
  Claim C1. A handle is opened by a render with a non-empty \<open>url\<close> whose construction
  succeeds; frames and transport signals \<open>pre\<close> follow; then the handle is closed by
  \<open>e\<close> (an unmount, or a render with other dependencies); then anything at all
  happens, late frames on the closed socket included. The consumer invocations made
  by this handle are those made before the close and no more, and there are at most
  as many as frames arrived on it before the close.
\<close>

theorem no_dispatch_after_close:
  assumes "hook_inv s0" and "\<not> unmounted s0" and "deps s0 \<noteq> Some (Some url, cb)"
    and "url \<noteq> []" and "\<not> ctor_throws P url"
    and "list_all transport_ev pre"
    and "tears_down (Some url, cb) e"
  shows "calls_of (length (handles s0)) (run P (Render (Some url) cb # pre @ e # rest) s0) =
         calls_of (length (handles s0)) (run P (Render (Some url) cb # pre) s0) \<and>
         length (calls_of (length (handles s0)) (run P (Render (Some url) cb # pre @ e # rest) s0))
           \<le> length (filter (frame_on (length (handles s0))) pre)"
proof -
  let ?h = "length (handles s0)"
  let ?s1 = "react_render P (Some url) cb s0"
  let ?s2 = "run P pre ?s1"
  note opened = render_open_facts [OF assms(2-5)]
  have inv2: "hook_inv ?s2"
    using assms(1) by (simp add: hook_inv_render hook_inv_run)
  have st2: "\<not> unmounted ?s2" "cleanup ?s2 = Some ?h" "deps ?s2 = Some (Some url, cb)"
    using opened by (simp_all add: transport_run_facts [OF assms(6)])
  have dead: "?h < length (handles (step P e ?s2)) \<and> \<not> alive (handles (step P e ?s2) ! ?h)"
    using inv2 st2 assms(7) by (rule tears_down_dead)
  have "calls_of ?h (run P rest (step P e ?s2)) = calls_of ?h (step P e ?s2)"
    using dead by (simp add: run_calls_dead)
  moreover have "calls_of ?h (step P e ?s2) = calls_of ?h ?s2"
    using st2 assms(7)
    by (cases e)
       (auto simp: calls_of_def react_render_def react_unmount_def useWs_effect_def Let_def
          run_pending_facts split: option.splits)
  ultimately have same: "calls_of ?h (run P rest (step P e ?s2)) = calls_of ?h ?s2"
    by simp
  have "calls_of ?h ?s1 = []"
    using calls_of_fresh [OF assms(1)] opened(3) by (simp add: calls_of_def)
  then have "length (calls_of ?h ?s2) \<le> length (filter (frame_on ?h) pre)"
    using transport_run_count [OF assms(6), of ?h P ?s1] by simp
  then show ?thesis
    using same by (simp add: run_append)
qed

theorem no_dispatch_after_close_witness:
  "hook_inv hook_init \<and> \<not> unmounted hook_init \<and>
   deps hook_init \<noteq> Some (Some ''ws://host/live'', Some 7) \<and>
   ''ws://host/live'' \<noteq> [] \<and> \<not> ctor_throws example_platform ''ws://host/live'' \<and>
   list_all transport_ev [SockOpen 0, Frame 0 ''true''] \<and>
   tears_down (Some ''ws://host/live'', Some 7) Unmount \<and>
   calls_of 0 (run example_platform
      (Render (Some ''ws://host/live'') (Some 7) # [SockOpen 0, Frame 0 ''true''] @ Unmount # [Frame 0 ''42''])
      hook_init) =
   calls_of 0 (run example_platform
      (Render (Some ''ws://host/live'') (Some 7) # [SockOpen 0, Frame 0 ''true'']) hook_init) \<and>
   calls_of 0 (run example_platform
      (Render (Some ''ws://host/live'') (Some 7) # [SockOpen 0, Frame 0 ''true'']) hook_init) =
     [(0, 7, JBool True)]"
proof -
  have a: "hook_inv hook_init" by (simp add: hook_inv_def hook_init_def)
  have b: "\<not> unmounted hook_init" by (simp add: hook_init_def)
  have c: "deps hook_init \<noteq> Some (Some ''ws://host/live'', Some 7)" by (simp add: hook_init_def)
  have d: "''ws://host/live'' \<noteq> []" by simp
  have e: "\<not> ctor_throws example_platform ''ws://host/live''" by (simp add: example_platform_def)
  have f: "list_all transport_ev [SockOpen 0, Frame 0 ''true'']" by simp
  have g: "tears_down (Some ''ws://host/live'', Some 7) Unmount" by simp
  have l: "length (handles hook_init) = 0" by (simp add: hook_init_def)
  have v: "calls_of 0 (run example_platform
      (Render (Some ''ws://host/live'') (Some 7) # [SockOpen 0, Frame 0 ''true'']) hook_init) =
     [(0, 7, JBool True)]"
    by (simp add: hook_init_def example_platform_def react_render_def run_pending_def
          useWs_effect_def ws_onopen_def ws_onmessage_def modify_at_def calls_of_def)
  show ?thesis
    using a b c d e f g v
      no_dispatch_after_close [OF a b c d e f g, of "[Frame 0 ''42'']"]
    by (simp only: l) simp
qed

subsection \<open>Socket operations\<close>

lemma ops_run_pending:
  "ops (run_pending s) =
     ops s @ (case cleanup s of None \<Rightarrow> []
              | Some h \<Rightarrow> (case wsRef s of None \<Rightarrow> [] | Some i \<Rightarrow> [CloseCalled i]))"
  by (simp add: run_pending_def useWs_cleanup_def ws_close_def kill_def closing_def Let_def split: option.splits)

lemma ops_run_pending_inv:
  assumes "hook_inv s"
  shows "ops (run_pending s) =
     ops s @ (case cleanup s of None \<Rightarrow> [] | Some h \<Rightarrow> [CloseCalled h])"
proof (cases "cleanup s")
  case None
  then show ?thesis by (simp add: ops_run_pending)
next
  case (Some h)
  then have "wsRef s = Some h"
    using assms unfolding hook_inv_iff by blast
  then show ?thesis using Some by (simp add: ops_run_pending)
qed

lemma cleanup_bound:
  "hook_inv s \<Longrightarrow> cleanup s = Some h \<Longrightarrow> h < length (handles s)"
  unfolding hook_inv_iff by blast

lemma ops_inv_run_pending:
  assumes "hook_inv s" "ops_inv s"
  shows "ops_inv (run_pending s)"
  using assms(2) cleanup_bound [OF assms(1)]
  by (cases "cleanup s")
     (simp_all add: ops_inv_def ops_run_pending_inv [OF assms(1)] run_pending_facts)

lemma ops_inv_step:
  assumes "hook_inv s" "ops_inv s"
  shows "ops_inv (step P e s)"
proof (cases e)
  case (Render url onMsg)
  have "list_all (\<lambda>x. op_handle x < length (handles s)) (ops (run_pending s))"
    using ops_inv_run_pending [OF assms] by (simp add: ops_inv_def run_pending_facts)
  then have "list_all (\<lambda>x. op_handle x < Suc (length (handles s))) (ops (run_pending s))"
    by (simp add: list_all_iff less_Suc_eq)
  then show ?thesis
    using Render assms(2) ops_inv_run_pending [OF assms]
    by (auto simp: ops_inv_def react_render_def useWs_effect_def Let_def run_pending_facts
          split: option.splits)
next
  case Unmount
  then show ?thesis
    using assms(2) ops_inv_run_pending [OF assms]
    by (auto simp: ops_inv_def react_unmount_def run_pending_facts)
next
  case (Frame h d)
  then show ?thesis
    using assms(2) by (auto simp: ops_inv_def ws_onmessage_def split: option.splits)
next
  case (SockOpen h)
  then show ?thesis
    using assms(2) by (auto simp: ops_inv_def ws_onopen_def length_modify_at)
next
  case (SockError h)
  then show ?thesis
    using assms(2) by (auto simp: ops_inv_def ws_onerror_def)
next
  case (SockClose h)
  then show ?thesis
    using assms(2) by (auto simp: ops_inv_def ws_onclose_def length_modify_at)
qed

lemma ops_inv_run: "hook_inv s \<Longrightarrow> ops_inv s \<Longrightarrow> ops_inv (run P es s)"
  by (induction es arbitrary: s) (simp_all add: ops_inv_step hook_inv_step)

lemma close_count_fresh:
  assumes "ops_inv s" "length (handles s) \<le> h"
  shows "close_count h s = 0"
proof -
  have "\<forall>x \<in> set (ops s). x \<noteq> CloseCalled h"
    using assms by (auto simp: ops_inv_def list_all_iff)
  then show ?thesis
    by (simp add: close_count_def filter_empty_conv)
qed

text \<open>Every state reached from the initial one satisfies both invariants.\<close>

lemma reachable_inv: "hook_inv (run P es hook_init) \<and> ops_inv (run P es hook_init)"
proof -
  have "hook_inv hook_init"
    by (rule hook_inv_init)
  moreover have "ops_inv hook_init"
    by (simp add: ops_inv_def hook_init_def)
  ultimately show ?thesis
    by (simp add: hook_inv_run ops_inv_run)
qed

lemma transport_step_handle:
  assumes "transport_ev e" "k < length (handles s)"
  shows "ws_url (handles (step P e s) ! k) = ws_url (handles s ! k)"
    and "alive (handles (step P e s) ! k) = alive (handles s ! k)"
    and "on_msg (handles (step P e s) ! k) = on_msg (handles s ! k)"
  using assms
  by (cases e; simp add: ws_onmessage_def ws_onopen_def ws_onerror_def ws_onclose_def
        length_modify_at nth_modify_at split: option.splits)+

lemma transport_run_handle:
  assumes "list_all transport_ev es" "k < length (handles s)"
  shows "ws_url (handles (run P es s) ! k) = ws_url (handles s ! k) \<and>
         alive (handles (run P es s) ! k) = alive (handles s ! k) \<and>
         on_msg (handles (run P es s) ! k) = on_msg (handles s ! k)"
  using assms
proof (induction es arbitrary: s)
  case Nil
  then show ?case by simp
next
  case (Cons e es)
  then have "k < length (handles (step P e s))"
    by (simp add: transport_step_facts)
  then show ?case
    using Cons by (simp add: transport_step_handle)
qed

text \<open>
  Claim C2. On a handle that is live and has a consumer \<open>c\<close>, a sequence of frames
  \<open>ds\<close> arriving in order invokes the consumer once for every frame that parses,
  with the parsed value, in the order of arrival, and for no other frame. A frame
  that does not parse only adds a log entry. Nothing else of the state changes: the
  socket stays as it was, no \<^verbatim>\<open>close()\<close> is issued, later frames are dispatched. The
  number of invocations added is the number of frames that parse.
\<close>

theorem decode_isolation:
  assumes "h < length (handles s)" and "alive (handles s ! h)"
    and "on_msg (handles s ! h) = Some c"
  shows "run P (map (Frame h) ds) s =
           s\<lparr>calls := calls s @ map (\<lambda>j. (h, c, j)) (List.map_filter (json_parse P) ds),
             console := console s @ concat (map (frame_log P c) ds)\<rparr> \<and>
         length (calls (run P (map (Frame h) ds) s)) =
           length (calls s) + length (filter (\<lambda>d. json_parse P d \<noteq> None) ds)"
proof -
  have eq: "run P (map (Frame h) ds) s =
           s\<lparr>calls := calls s @ map (\<lambda>j. (h, c, j)) (List.map_filter (json_parse P) ds),
             console := console s @ concat (map (frame_log P c) ds)\<rparr>"
    using assms by (rule frames_live)
  have "length (List.map_filter (json_parse P) ds) =
      length (filter (\<lambda>d. json_parse P d \<noteq> None) ds)"
    by (simp add: List.map_filter_def)
  then show ?thesis
    by (simp add: eq)
qed

theorem decode_isolation_witness:
  "(0::nat) < length (handles (run example_platform [Render (Some ''ws://host/live'') (Some 7), SockOpen 0] hook_init)) \<and>
   alive (handles (run example_platform [Render (Some ''ws://host/live'') (Some 7), SockOpen 0] hook_init) ! 0) \<and>
   on_msg (handles (run example_platform [Render (Some ''ws://host/live'') (Some 7), SockOpen 0] hook_init) ! 0) = Some 7 \<and>
   calls (run example_platform (map (Frame 0) [''true'', ''{oops'', ''42''])
      (run example_platform [Render (Some ''ws://host/live'') (Some 7), SockOpen 0] hook_init)) =
     [(0, 7, JBool True), (0, 7, JNum 42)] \<and>
   console (run example_platform (map (Frame 0) [''true'', ''{oops'', ''42''])
      (run example_platform [Render (Some ''ws://host/live'') (Some 7), SockOpen 0] hook_init)) =
     [LogWsOpen, LogWsParse]"
proof -
  let ?s = "run example_platform [Render (Some ''ws://host/live'') (Some 7), SockOpen 0] hook_init"
  have s: "?s = \<lparr>wsRef = Some 0,
      handles = [\<lparr>ws_url = ''ws://host/live'', ready = OPEN, alive = True, on_msg = Some 7\<rparr>],
      cleanup = Some 0, deps = Some (Some ''ws://host/live'', Some 7), unmounted = False,
      console = [LogWsOpen], ops = [Constructed 0 ''ws://host/live''], calls = []\<rparr>"
    by (simp add: hook_init_def example_platform_def react_render_def run_pending_def
          useWs_effect_def ws_onopen_def modify_at_def)
  have a: "0 < length (handles ?s)" unfolding s by simp
  have b: "alive (handles ?s ! 0)" unfolding s by simp
  have c: "on_msg (handles ?s ! 0) = Some 7" unfolding s by simp
  show ?thesis
    using a b c decode_isolation [OF a b c, of example_platform "[''true'', ''{oops'', ''42'']"]
    unfolding s
    by (simp add: example_platform_def frame_log_def List.map_filter_simps)
qed

subsection \<open>Inert handles\<close>

lemma all_dead_step:
  assumes "transport_ev e" "\<forall>k < length (handles s). \<not> alive (handles s ! k)"
  shows "calls (step P e s) = calls s"
  using assms
  by (cases e) (auto simp: ws_onmessage_def ws_onopen_def ws_onerror_def ws_onclose_def
        split: option.splits)

lemma all_dead_run:
  assumes "list_all transport_ev es" "\<forall>k < length (handles s). \<not> alive (handles s ! k)"
  shows "calls (run P es s) = calls s"
  using assms
proof (induction es arbitrary: s)
  case Nil
  then show ?case by simp
next
  case (Cons e es)
  have "\<forall>k < length (handles (step P e s)). \<not> alive (handles (step P e s) ! k)"
    using Cons.prems by (simp add: transport_step_facts transport_step_handle)
  then have "calls (run P es (step P e s)) = calls (step P e s)"
    using Cons.prems(1) by (intro Cons.IH) simp_all
  then show ?case
    using Cons.prems by (simp add: all_dead_step)
qed

lemma unmount_inert:
  assumes "\<not> unmounted s" "cleanup s = None"
  shows "react_unmount s = s\<lparr>unmounted := True\<rparr>"
  using assms by (simp add: react_unmount_def run_pending_def)

lemma render_inert:
  assumes "hook_inv s" "\<not> unmounted s" "deps s \<noteq> Some (url, cb)"
    and "snd (useWs_effect P url cb (run_pending s)) = None"
    and "list_all transport_ev evs"
    and "s' = step P (Render url cb) s"
  shows "cleanup s' = None"
    and "handles s' = handles (run_pending s)"
    and "ops s' = ops (run_pending s)"
    and "calls (run P evs s') = calls s"
    and "step P Unmount (run P evs s') = (run P evs s')\<lparr>unmounted := True\<rparr>"
proof -
  have s': "s' = (fst (useWs_effect P url cb (run_pending s)))\<lparr>cleanup := None, deps := Some (url, cb)\<rparr>"
    using assms(2,3,4) by (simp add: assms(6) react_render_def)
  have noctor: "fst (useWs_effect P url cb (run_pending s)) = run_pending s \<or>
      fst (useWs_effect P url cb (run_pending s)) =
        (run_pending s)\<lparr>console := console (run_pending s) @ [LogWsErr]\<rparr>"
    using assms(4) by (auto simp: useWs_effect_def Let_def split: option.splits if_splits)
  show c: "cleanup s' = None" by (simp add: s')
  show h: "handles s' = handles (run_pending s)"
    using noctor by (auto simp: s')
  show "ops s' = ops (run_pending s)"
    using noctor by (auto simp: s')
  have k: "calls s' = calls s"
    using noctor by (auto simp: s' run_pending_facts)
  have u: "\<not> unmounted s'"
    using noctor assms(2) by (auto simp: s' run_pending_facts)
  have "\<forall>k < length (handles s'). \<not> alive (handles s' ! k)"
    using run_pending_dead [OF assms(1)] by (simp add: h run_pending_facts)
  then show "calls (run P evs s') = calls s"
    using assms(5) k by (simp add: all_dead_run)
  show "step P Unmount (run P evs s') = (run P evs s')\<lparr>unmounted := True\<rparr>"
    using c u by (simp add: unmount_inert transport_run_facts [OF assms(5)])
qed

text \<open>
  Claim C4. When the constructor throws on a non-empty \<open>u\<close>, the effect logs the
  failure and returns without a cleanup function; the state is otherwise as the
  pending cleanup left it: no socket is constructed, the ref cell is not written.
  Until the next render no consumer is invoked at all, and unmounting then does
  nothing.
\<close>

theorem construction_failure_inert:
  assumes "hook_inv s" and "\<not> unmounted s" and "deps s \<noteq> Some (Some u, cb)"
    and "u \<noteq> []" and "ctor_throws P u"
    and "list_all transport_ev evs"
    and "s' = step P (Render (Some u) cb) s"
  shows "useWs_effect P (Some u) cb s = (s\<lparr>console := console s @ [LogWsErr]\<rparr>, None) \<and>
         cleanup s' = None \<and>
         console s' = console s @ [LogWsErr] \<and>
         handles s' = handles (run_pending s) \<and>
         ops s' = ops (run_pending s) \<and>
         wsRef s' = wsRef s \<and>
         calls (run P evs s') = calls s \<and>
         step P Unmount (run P evs s') = (run P evs s')\<lparr>unmounted := True\<rparr>"
proof -
  have eff: "useWs_effect P (Some u) cb s = (s\<lparr>console := console s @ [LogWsErr]\<rparr>, None)" for s
    using assms(4,5) by (simp add: useWs_effect_def)
  then have none: "snd (useWs_effect P (Some u) cb (run_pending s)) = None"
    by simp
  note inert = render_inert [OF assms(1-3) none assms(6,7)]
  have "console s' = console s @ [LogWsErr]" and "wsRef s' = wsRef s"
    using assms(2,3) by (simp_all add: assms(7) react_render_def eff run_pending_facts)
  then show ?thesis
    using eff inert by simp
qed

theorem construction_failure_inert_witness:
  "hook_inv hook_init \<and> \<not> unmounted hook_init \<and>
   deps hook_init \<noteq> Some (Some ''ftp://host/feed'', Some 7) \<and>
   ''ftp://host/feed'' \<noteq> [] \<and> ctor_throws example_platform ''ftp://host/feed'' \<and>
   list_all transport_ev [Frame 0 ''true'', SockOpen 0] \<and>
   cleanup (step example_platform (Render (Some ''ftp://host/feed'') (Some 7)) hook_init) = None \<and>
   console (step example_platform (Render (Some ''ftp://host/feed'') (Some 7)) hook_init) = [LogWsErr] \<and>
   handles (step example_platform (Render (Some ''ftp://host/feed'') (Some 7)) hook_init) = [] \<and>
   ops (step example_platform (Render (Some ''ftp://host/feed'') (Some 7)) hook_init) = [] \<and>
   calls (run example_platform [Frame 0 ''true'', SockOpen 0]
     (step example_platform (Render (Some ''ftp://host/feed'') (Some 7)) hook_init)) = []"
proof -
  have a: "hook_inv hook_init" by (simp add: hook_inv_def hook_init_def)
  have b: "\<not> unmounted hook_init" by (simp add: hook_init_def)
  have c: "deps hook_init \<noteq> Some (Some ''ftp://host/feed'', Some 7)" by (simp add: hook_init_def)
  have d: "''ftp://host/feed'' \<noteq> []" by simp
  have e: "ctor_throws example_platform ''ftp://host/feed''" by (simp add: example_platform_def)
  have f: "list_all transport_ev [Frame 0 ''true'', SockOpen 0]" by simp
  have p: "run_pending hook_init = hook_init" by (simp add: run_pending_def hook_init_def)
  have i: "console hook_init = []" "calls hook_init = []" "handles hook_init = []" "ops hook_init = []"
    by (simp_all add: hook_init_def)
  show ?thesis
    using a b c d e f construction_failure_inert [OF a b c d e f refl]
    unfolding p i by simp
qed

text \<open>
  Claim C5. With an absent or empty endpoint the effect returns at once: the state
  is the one the pending cleanup left, no socket is constructed and nothing is
  logged. Until the next render no consumer is invoked, and unmounting does nothing:
  there is no cleanup function to run.
\<close>

theorem empty_url_inert:
  assumes "url = None \<or> url = Some []"
    and "hook_inv s" and "\<not> unmounted s" and "deps s \<noteq> Some (url, cb)"
    and "list_all transport_ev evs"
    and "s' = step P (Render url cb) s"
  shows "useWs_effect P url cb s = (s, None) \<and>
         s' = (run_pending s)\<lparr>cleanup := None, deps := Some (url, cb)\<rparr> \<and>
         handles s' = handles (run_pending s) \<and>
         ops s' = ops (run_pending s) \<and>
         calls (run P evs s') = calls s \<and>
         step P Unmount (run P evs s') = (run P evs s')\<lparr>unmounted := True\<rparr>"
proof -
  have eff: "useWs_effect P url cb s = (s, None)" for s
    using assms(1) by (auto simp: useWs_effect_def)
  then have none: "snd (useWs_effect P url cb (run_pending s)) = None"
    by simp
  note inert = render_inert [OF assms(2-4) none assms(5,6)]
  have "s' = (run_pending s)\<lparr>cleanup := None, deps := Some (url, cb)\<rparr>"
    using assms(3,4) by (simp add: assms(6) react_render_def eff)
  then show ?thesis
    using eff inert by simp
qed

theorem empty_url_inert_witness:
  "(Some [] = None \<or> Some [] = Some ([] :: string)) \<and>
   hook_inv hook_init \<and> \<not> unmounted hook_init \<and>
   deps hook_init \<noteq> Some (Some [], Some 7) \<and>
   list_all transport_ev [Frame 0 ''true''] \<and>
   step example_platform (Render (Some []) (Some 7)) hook_init =
     hook_init\<lparr>cleanup := None, deps := Some (Some [], Some 7)\<rparr> \<and>
   ops (step example_platform (Render (Some []) (Some 7)) hook_init) = [] \<and>
   calls (run example_platform [Frame 0 ''true'']
     (step example_platform (Render (Some []) (Some 7)) hook_init)) = []"
proof -
  have z: "Some [] = None \<or> Some [] = Some ([] :: string)" by simp
  have a: "hook_inv hook_init" by (simp add: hook_inv_def hook_init_def)
  have b: "\<not> unmounted hook_init" by (simp add: hook_init_def)
  have c: "deps hook_init \<noteq> Some (Some [], Some 7)" by (simp add: hook_init_def)
  have f: "list_all transport_ev [Frame 0 ''true'']" by simp
  have p: "run_pending hook_init = hook_init" by (simp add: run_pending_def hook_init_def)
  have i: "calls hook_init = []" "ops hook_init = []"
    by (simp_all add: hook_init_def)
  note t = empty_url_inert [OF z a b c f refl, of example_platform, unfolded p i]
  show ?thesis
    using z a b c f t by blast
qed

subsection \<open>Teardown\<close>

lemma cleanup_after_termination:
  assumes "wsRef s = Some h" "h < length (handles s)"
    and "ready (handles s ! h) = CLOSING \<or> ready (handles s ! h) = CLOSED"
  shows "useWs_cleanup h s =
     s\<lparr>handles := modify_at h kill (handles s), ops := ops s @ [CloseCalled h]\<rparr>"
  using assms
  by (auto simp: useWs_cleanup_def ws_close_def kill_def closing_def Let_def modify_at_def)

lemma unmount_twice: "react_unmount (react_unmount s) = react_unmount s"
  by (simp add: react_unmount_def)

text \<open>
  A \<^verbatim>\<open>close()\<close> is only ever issued by the pending cleanup, on its own socket, and the
  pending cleanup is then gone: a socket whose cleanup is not pending is not closed
  again, and no socket is closed twice.
\<close>

lemma close_count_append:
  "close_count h (s\<lparr>ops := ops s @ xs\<rparr>) = close_count h s + length (filter (\<lambda>x. x = CloseCalled h) xs)"
  by (simp add: close_count_def)

lemma close_count_run_pending:
  assumes "hook_inv s"
  shows "close_count h (run_pending s) = close_count h s + (if cleanup s = Some h then 1 else 0)"
  by (cases "cleanup s") (auto simp: close_count_def ops_run_pending_inv [OF assms])

lemma close_count_render:
  assumes "hook_inv s" "\<not> unmounted s" "deps s \<noteq> Some (url, onMsg)"
  shows "close_count h (react_render P url onMsg s) =
           close_count h s + (if cleanup s = Some h then 1 else 0)"
    and "cleanup (react_render P url onMsg s) = Some k \<Longrightarrow> k = length (handles s)"
  using assms(2,3) close_count_run_pending [OF assms(1), of h]
  by (auto simp: react_render_def useWs_effect_def Let_def close_count_def run_pending_facts
        split: option.splits if_splits)

lemma close_count_unmount:
  assumes "hook_inv s" "\<not> unmounted s"
  shows "close_count h (react_unmount s) = close_count h s + (if cleanup s = Some h then 1 else 0)"
    and "cleanup (react_unmount s) = None"
  using assms(2) close_count_run_pending [OF assms(1), of h]
  by (auto simp: react_unmount_def close_count_def)

lemma close_count_transport:
  assumes "transport_ev e"
  shows "close_count h (step P e s) = close_count h s"
  using assms by (simp add: close_count_def transport_step_facts)

lemma step_close_once:
  assumes "hook_inv s" "ops_inv s"
    and "close_count h s \<le> 1" and "cleanup s = Some h \<longrightarrow> close_count h s = 0"
  shows "close_count h (step P e s) \<le> 1 \<and>
         (cleanup (step P e s) = Some h \<longrightarrow> close_count h (step P e s) = 0)"
proof (cases e)
  case (Render url onMsg)
  show ?thesis
  proof (cases "unmounted s \<or> deps s = Some (url, onMsg)")
    case True
    then show ?thesis
      using Render assms(3,4) by (auto simp: react_render_def)
  next
    case False
    then have f: "\<not> unmounted s" "deps s \<noteq> Some (url, onMsg)"
      by simp_all
    note r = close_count_render(1) [OF assms(1) f, where h = h and P = P]
      close_count_render(2) [OF assms(1) f, where P = P]
    have fresh: "h = length (handles s) \<longrightarrow> close_count h s = 0 \<and> cleanup s \<noteq> Some h"
      using close_count_fresh [OF assms(2), of h] cleanup_bound [OF assms(1), of h] by auto
    show ?thesis
      using Render assms(3,4) r fresh by (auto split: if_splits)
  qed
next
  case Unmount
  show ?thesis
  proof (cases "unmounted s")
    case True
    then show ?thesis
      using Unmount assms(3,4) by (simp add: react_unmount_def)
  next
    case False
    note u = close_count_unmount(1) [OF assms(1) False, where h = h]
      close_count_unmount(2) [OF assms(1) False]
    show ?thesis
      using Unmount assms(3,4) u by (auto split: if_splits)
  qed
next
  case (Frame k d)
  then have "transport_ev e" by simp
  then show ?thesis
    using assms(3,4) by (simp add: close_count_transport transport_step_facts)
next
  case (SockOpen k)
  then have "transport_ev e" by simp
  then show ?thesis
    using assms(3,4) by (simp add: close_count_transport transport_step_facts)
next
  case (SockError k)
  then have "transport_ev e" by simp
  then show ?thesis
    using assms(3,4) by (simp add: close_count_transport transport_step_facts)
next
  case (SockClose k)
  then have "transport_ev e" by simp
  then show ?thesis
    using assms(3,4) by (simp add: close_count_transport transport_step_facts)
qed

lemma run_close_once:
  "hook_inv s \<Longrightarrow> ops_inv s \<Longrightarrow> close_count h s \<le> 1 \<Longrightarrow>
   (cleanup s = Some h \<longrightarrow> close_count h s = 0) \<Longrightarrow>
   close_count h (run P es s) \<le> 1"
proof (induction es arbitrary: s)
  case Nil
  then show ?case by simp
next
  case (Cons e es)
  have "hook_inv (step P e s)" "ops_inv (step P e s)"
    using Cons.prems(1,2) by (simp_all add: hook_inv_step ops_inv_step)
  moreover have "close_count h (step P e s) \<le> 1"
    and "cleanup (step P e s) = Some h \<longrightarrow> close_count h (step P e s) = 0"
    using step_close_once [OF Cons.prems, of P e] by simp_all
  ultimately have "close_count h (run P es (step P e s)) \<le> 1"
    by (rule Cons.IH)
  then show ?case by simp
qed

lemma step_not_pending:
  assumes "hook_inv s" "h < length (handles s)" "cleanup s \<noteq> Some h"
  shows "cleanup (step P e s) \<noteq> Some h \<and> close_count h (step P e s) = close_count h s"
proof (cases e)
  case (Render url onMsg)
  show ?thesis
  proof (cases "unmounted s \<or> deps s = Some (url, onMsg)")
    case True
    then show ?thesis
      using Render assms(3) by (auto simp: react_render_def)
  next
    case False
    then have f: "\<not> unmounted s" "deps s \<noteq> Some (url, onMsg)"
      by simp_all
    note r = close_count_render(1) [OF assms(1) f, where h = h and P = P]
      close_count_render(2) [OF assms(1) f, where P = P]
    show ?thesis
      using Render assms(2,3) r by auto
  qed
next
  case Unmount
  show ?thesis
  proof (cases "unmounted s")
    case True
    then show ?thesis
      using Unmount assms(3) by (simp add: react_unmount_def)
  next
    case False
    note u = close_count_unmount(1) [OF assms(1) False, where h = h]
      close_count_unmount(2) [OF assms(1) False]
    show ?thesis
      using Unmount assms(3) u by auto
  qed
next
  case (Frame k d)
  then have "transport_ev e" by simp
  then show ?thesis
    using assms(3) by (simp add: close_count_transport transport_step_facts)
next
  case (SockOpen k)
  then have "transport_ev e" by simp
  then show ?thesis
    using assms(3) by (simp add: close_count_transport transport_step_facts)
next
  case (SockError k)
  then have "transport_ev e" by simp
  then show ?thesis
    using assms(3) by (simp add: close_count_transport transport_step_facts)
next
  case (SockClose k)
  then have "transport_ev e" by simp
  then show ?thesis
    using assms(3) by (simp add: close_count_transport transport_step_facts)
qed

lemma run_not_pending:
  "hook_inv s \<Longrightarrow> h < length (handles s) \<Longrightarrow> cleanup s \<noteq> Some h \<Longrightarrow>
   close_count h (run P es s) = close_count h s"
proof (induction es arbitrary: s)
  case Nil
  then show ?case by simp
next
  case (Cons e es)
  have "hook_inv (step P e s)"
    using Cons.prems(1) by (rule hook_inv_step)
  moreover have "h < length (handles (step P e s))"
    using Cons.prems(2) step_length [of s P e] by simp
  moreover have "cleanup (step P e s) \<noteq> Some h"
    using step_not_pending [OF Cons.prems] by simp
  ultimately have "close_count h (run P es (step P e s)) = close_count h (step P e s)"
    by (rule Cons.IH)
  then show ?case using step_not_pending [OF Cons.prems, of P e] by simp
qed

text \<open>No step changes the endpoint of a socket.\<close>

lemma step_ws_url:
  assumes "k < length (handles s)"
  shows "ws_url (handles (step P e s) ! k) = ws_url (handles s ! k)"
  using assms
  by (cases e)
     (auto simp: react_render_def react_unmount_def run_pending_def useWs_effect_def Let_def
        handles_useWs_cleanup_len ws_url_useWs_cleanup nth_append
        ws_onmessage_def ws_onopen_def ws_onerror_def ws_onclose_def
        length_modify_at nth_modify_at split: option.splits)

lemma run_ws_url:
  "k < length (handles s) \<Longrightarrow> ws_url (handles (run P es s) ! k) = ws_url (handles s ! k)"
proof (induction es arbitrary: s)
  case Nil
  then show ?case by simp
next
  case (Cons e es)
  have "k < length (handles (step P e s))"
    using Cons.prems step_length [of s P e] by simp
  then have "ws_url (handles (run P es (step P e s)) ! k) = ws_url (handles (step P e s) ! k)"
    by (rule Cons.IH)
  then show ?case
    using Cons.prems by (simp add: step_ws_url)
qed

text \<open>
  Claim C3 as stated fails where a construction fails. A change from \<^verbatim>\<open>ws://a/live\<close>
  to a non-empty endpoint the constructor rejects closes the old socket and opens
  no connection; a change from a rejected endpoint to \<^verbatim>\<open>ws://a/live\<close> finds no
  connection to close and issues no \<^verbatim>\<open>close()\<close>.
\<close>

theorem endpoint_change_counterexample:
  "''ws://a/live'' \<noteq> [] \<and> ''ftp://host/feed'' \<noteq> [] \<and>
   ops (run example_platform
     [Render (Some ''ws://a/live'') (Some 7), Render (Some ''ftp://host/feed'') (Some 7)] hook_init) =
     [Constructed 0 ''ws://a/live'', CloseCalled 0] \<and>
   length (handles (run example_platform
     [Render (Some ''ws://a/live'') (Some 7), Render (Some ''ftp://host/feed'') (Some 7)] hook_init)) = 1 \<and>
   ops (run example_platform
     [Render (Some ''ftp://host/feed'') (Some 7), Render (Some ''ws://a/live'') (Some 7)] hook_init) =
     [Constructed 0 ''ws://a/live'']"
  by (simp add: hook_init_def example_platform_def react_render_def run_pending_def
        useWs_effect_def useWs_cleanup_def ws_close_def kill_def closing_def modify_at_def)

text \<open>
  Claim C3 as the code has it. The hook holds the connection constructed for \<open>u1\<close>
  (state \<open>s\<close>, handle \<open>h1\<close>); a render with another non-empty endpoint \<open>u2\<close> gives \<open>s'\<close>.
  Whether or not the constructor accepts \<open>u2\<close>: that render issues one \<^verbatim>\<open>close()\<close> on
  the \<open>u1\<close> socket, the only one it ever gets; the cleanup runs first, so that in the
  state it leaves \<^verbatim>\<open>alive\<close> of \<open>h1\<close> is false and no socket has been added, and the
  effect runs on that state; the \<open>u1\<close> socket keeps its endpoint for ever; and
  whatever happens afterwards, late frames on the old socket included, the old
  handle invokes the consumer no more. When the constructor accepts \<open>u2\<close>, one socket
  is constructed, a new object for \<open>u2\<close>, and the ref cell holds it; when it throws,
  none is constructed and no cleanup is pending.
\<close>

theorem endpoint_change_resubscribes:
  assumes "hook_inv s0" and "ops_inv s0" and "\<not> unmounted s0"
    and "deps s0 \<noteq> Some (Some u1, cb1)" and "u1 \<noteq> []" and "\<not> ctor_throws P u1"
    and "list_all transport_ev pre"
    and "u2 \<noteq> []" and "u2 \<noteq> u1"
    and "h1 = length (handles s0)"
    and "s = run P (Render (Some u1) cb1 # pre) s0"
    and "s' = step P (Render (Some u2) cb2) s"
  shows "close_count h1 s = 0 \<and> close_count h1 s' = 1 \<and> close_count h1 (run P rest s') = 1 \<and>
         wsRef s = Some h1 \<and> length (handles s) = Suc h1 \<and>
         ws_url (handles s ! h1) = u1 \<and> ws_url (handles (run P rest s') ! h1) = u1 \<and>
         \<not> alive (handles (run_pending s) ! h1) \<and>
         length (handles (run_pending s)) = Suc h1 \<and>
         ops (run_pending s) = ops s @ [CloseCalled h1] \<and>
         s' = (fst (useWs_effect P (Some u2) cb2 (run_pending s)))
                \<lparr>cleanup := snd (useWs_effect P (Some u2) cb2 (run_pending s)),
                 deps := Some (Some u2, cb2)\<rparr> \<and>
         calls_of h1 (run P rest s') = calls_of h1 s \<and>
         (\<not> ctor_throws P u2 \<longrightarrow>
            ops s' = ops s @ [CloseCalled h1, Constructed (Suc h1) u2] \<and>
            length (handles s') = Suc (Suc h1) \<and>
            handles s' ! Suc h1 = \<lparr>ws_url = u2, ready = CONNECTING, alive = True, on_msg = cb2\<rparr> \<and>
            wsRef s' = Some (Suc h1)) \<and>
         (ctor_throws P u2 \<longrightarrow>
            ops s' = ops s @ [CloseCalled h1] \<and>
            length (handles s') = Suc h1 \<and> cleanup s' = None)"
proof -
  let ?s1 = "react_render P (Some u1) cb1 s0"
  let ?p = "run_pending s"
  let ?eff = "useWs_effect P (Some u2) cb2 ?p"
  note opened = render_open_facts [OF assms(3-6)]
  have s: "s = run P pre ?s1"
    by (simp add: assms(11))
  have inv1: "hook_inv ?s1"
    using assms(1) by (rule hook_inv_render)
  have inv: "hook_inv s"
    unfolding s using inv1 by (rule hook_inv_run)
  have len: "length (handles s) = Suc h1"
    by (simp add: s transport_run_facts [OF assms(7)] opened assms(10))
  have h1: "h1 < length (handles ?s1)"
    by (simp add: opened assms(10))
  have st: "\<not> unmounted s" "cleanup s = Some h1" "deps s = Some (Some u1, cb1)"
    by (simp_all add: s transport_run_facts [OF assms(7)] opened assms(10))
  have ref: "wsRef s = Some h1"
    using inv st(2) unfolding hook_inv_iff by blast
  have url: "ws_url (handles s ! h1) = u1"
    unfolding s using transport_run_handle [OF assms(7) h1, of P] opened(6)
    by (simp add: assms(10))
  have ops1: "ops s = ops ?s1"
    by (simp add: s transport_run_facts [OF assms(7)])
  have "close_count h1 (run_pending s0) = 0"
    using ops_inv_run_pending [OF assms(1,2)]
    by (intro close_count_fresh) (simp_all add: run_pending_facts assms(10))
  then have cc0: "close_count h1 s = 0"
    by (simp add: ops1 render_open [OF assms(3-6)] close_count_def)
  have pops: "ops ?p = ops s @ [CloseCalled h1]"
    by (simp add: ops_run_pending_inv [OF inv] st)
  have plen: "length (handles ?p) = Suc h1"
    by (simp add: run_pending_facts len)
  have dead: "\<not> alive (handles ?p ! h1)"
    using inv by (rule run_pending_dead) (simp add: len)
  have d: "deps s \<noteq> Some (Some u2, cb2)"
    using assms(9) by (simp add: st)
  have s': "s' = (fst ?eff)\<lparr>cleanup := snd ?eff, deps := Some (Some u2, cb2)\<rparr>"
    using st(1) d by (simp add: assms(12) react_render_def Let_def)
  have inv': "hook_inv s'"
    unfolding assms(12) using inv by (rule hook_inv_step)
  have ok: "\<not> ctor_throws P u2 \<longrightarrow>
      ops s' = ops s @ [CloseCalled h1, Constructed (Suc h1) u2] \<and>
      length (handles s') = Suc (Suc h1) \<and>
      handles s' ! Suc h1 = \<lparr>ws_url = u2, ready = CONNECTING, alive = True, on_msg = cb2\<rparr> \<and>
      wsRef s' = Some (Suc h1)"
    using assms(8) by (simp add: s' useWs_effect_def Let_def pops plen nth_append)
  have bad: "ctor_throws P u2 \<longrightarrow>
      ops s' = ops s @ [CloseCalled h1] \<and> length (handles s') = Suc h1 \<and> cleanup s' = None"
    using assms(8) by (simp add: s' useWs_effect_def pops plen)
  have len': "h1 < length (handles s')"
    using assms(8) by (simp add: s' useWs_effect_def Let_def plen)
  have pend': "cleanup s' \<noteq> Some h1"
    using assms(8) by (simp add: s' useWs_effect_def Let_def plen)
  have cc1: "close_count h1 s' = 1"
    using cc0 assms(8) by (simp add: s' useWs_effect_def Let_def close_count_def pops)
  have "close_count h1 (run P rest s') = close_count h1 s'"
    using inv' len' pend' by (rule run_not_pending)
  then have cc2: "close_count h1 (run P rest s') = 1"
    using cc1 by simp
  have dead': "\<not> alive (handles s' ! h1)"
    using dead assms(8) by (simp add: s' useWs_effect_def Let_def nth_append plen)
  have "calls_of h1 (run P rest s') = calls_of h1 s'"
    using len' dead' by (rule run_calls_dead)
  then have calls: "calls_of h1 (run P rest s') = calls_of h1 s"
    using assms(8) by (simp add: calls_of_def s' useWs_effect_def Let_def run_pending_facts)
  have "ws_url (handles s' ! h1) = u1"
    using url step_ws_url [of h1 s P "Render (Some u2) cb2"] by (simp add: assms(12) len)
  then have url': "ws_url (handles (run P rest s') ! h1) = u1"
    using run_ws_url [OF len', of P rest] by simp
  show ?thesis
    using cc0 cc1 cc2 ref len url url' dead plen pops s' calls ok bad
    by (intro conjI) assumption+
qed

theorem endpoint_change_resubscribes_witness:
  "hook_inv hook_init \<and> ops_inv hook_init \<and> \<not> unmounted hook_init \<and>
   deps hook_init \<noteq> Some (Some ''ws://a/live'', Some 7) \<and>
   ''ws://a/live'' \<noteq> [] \<and> \<not> ctor_throws example_platform ''ws://a/live'' \<and>
   list_all transport_ev [SockOpen 0, Frame 0 ''true''] \<and>
   ''ws://b/live'' \<noteq> [] \<and> ''ws://b/live'' \<noteq> ''ws://a/live'' \<and>
   \<not> ctor_throws example_platform ''ws://b/live'' \<and>
   ''ftp://host/feed'' \<noteq> [] \<and> ''ftp://host/feed'' \<noteq> ''ws://a/live'' \<and>
   ctor_throws example_platform ''ftp://host/feed'' \<and>
   ops (run example_platform
     [Render (Some ''ws://a/live'') (Some 7), SockOpen 0, Frame 0 ''true'',
      Render (Some ''ws://b/live'') (Some 7)] hook_init) =
     [Constructed 0 ''ws://a/live'', CloseCalled 0, Constructed 1 ''ws://b/live''] \<and>
   close_count 0 (run example_platform
     [Render (Some ''ws://a/live'') (Some 7), SockOpen 0, Frame 0 ''true'',
      Render (Some ''ws://b/live'') (Some 7), Frame 0 ''42'', SockClose 0, Unmount] hook_init) = 1 \<and>
   calls_of 0 (run example_platform
     [Render (Some ''ws://a/live'') (Some 7), SockOpen 0, Frame 0 ''true'',
      Render (Some ''ws://b/live'') (Some 7), Frame 0 ''42'', SockClose 0, Unmount] hook_init) =
     [(0, 7, JBool True)] \<and>
   close_count 0 (run example_platform
     [Render (Some ''ws://a/live'') (Some 7), SockOpen 0, Frame 0 ''true'',
      Render (Some ''ftp://host/feed'') (Some 7), Frame 0 ''42'', SockClose 0, Unmount] hook_init) = 1 \<and>
   calls_of 0 (run example_platform
     [Render (Some ''ws://a/live'') (Some 7), SockOpen 0, Frame 0 ''true'',
      Render (Some ''ftp://host/feed'') (Some 7), Frame 0 ''42'', SockClose 0, Unmount] hook_init) =
     [(0, 7, JBool True)]"
proof -
  let ?s = "run example_platform
     (Render (Some ''ws://a/live'') (Some 7) # [SockOpen 0, Frame 0 ''true'']) hook_init"
  let ?s' = "step example_platform (Render (Some ''ws://b/live'') (Some 7)) ?s"
  let ?t' = "step example_platform (Render (Some ''ftp://host/feed'') (Some 7)) ?s"
  let ?rest = "[Frame 0 ''42'', SockClose 0, Unmount]"
  have a: "hook_inv hook_init" by (simp add: hook_inv_def hook_init_def)
  have b: "ops_inv hook_init" by (simp add: ops_inv_def hook_init_def)
  have c: "\<not> unmounted hook_init" by (simp add: hook_init_def)
  have d: "deps hook_init \<noteq> Some (Some ''ws://a/live'', Some 7)" by (simp add: hook_init_def)
  have e: "''ws://a/live'' \<noteq> []" by simp
  have f: "\<not> ctor_throws example_platform ''ws://a/live''" by (simp add: example_platform_def)
  have g: "list_all transport_ev [SockOpen 0, Frame 0 ''true'']" by simp
  have h: "''ws://b/live'' \<noteq> []" by simp
  have i: "''ws://b/live'' \<noteq> ''ws://a/live''" by simp
  have j: "\<not> ctor_throws example_platform ''ws://b/live''" by (simp add: example_platform_def)
  have h2: "''ftp://host/feed'' \<noteq> []" by simp
  have i2: "''ftp://host/feed'' \<noteq> ''ws://a/live''" by simp
  have j2: "ctor_throws example_platform ''ftp://host/feed''" by (simp add: example_platform_def)
  have k: "0 = length (handles hook_init)" by (simp add: hook_init_def)
  have s: "?s = \<lparr>wsRef = Some 0,
      handles = [\<lparr>ws_url = ''ws://a/live'', ready = OPEN, alive = True, on_msg = Some 7\<rparr>],
      cleanup = Some 0, deps = Some (Some ''ws://a/live'', Some 7), unmounted = False,
      console = [LogWsOpen], ops = [Constructed 0 ''ws://a/live''],
      calls = [(0, 7, JBool True)]\<rparr>"
    by (simp add: hook_init_def example_platform_def react_render_def run_pending_def
          useWs_effect_def ws_onopen_def ws_onmessage_def modify_at_def)
  have run1: "run example_platform
     [Render (Some ''ws://a/live'') (Some 7), SockOpen 0, Frame 0 ''true'',
      Render (Some ''ws://b/live'') (Some 7)] hook_init = ?s'"
    by simp
  have run2: "run example_platform
     [Render (Some ''ws://a/live'') (Some 7), SockOpen 0, Frame 0 ''true'',
      Render (Some ''ws://b/live'') (Some 7), Frame 0 ''42'', SockClose 0, Unmount] hook_init =
     run example_platform ?rest ?s'"
    by simp
  have run3: "run example_platform
     [Render (Some ''ws://a/live'') (Some 7), SockOpen 0, Frame 0 ''true'',
      Render (Some ''ftp://host/feed'') (Some 7), Frame 0 ''42'', SockClose 0, Unmount] hook_init =
     run example_platform ?rest ?t'"
    by simp
  note t1 = endpoint_change_resubscribes
    [OF a b c d e f g h i k refl refl, where ?cb2.0 = "Some 7" and rest = ?rest]
  note t2 = endpoint_change_resubscribes
    [OF a b c d e f g h2 i2 k refl refl, where ?cb2.0 = "Some 7" and rest = ?rest]
  have u1: "ops ?s' = ops ?s @ [CloseCalled 0, Constructed (Suc 0) ''ws://b/live'']"
    and u2: "close_count 0 (run example_platform ?rest ?s') = 1"
    and u3: "calls_of 0 (run example_platform ?rest ?s') = calls_of 0 ?s"
    using t1 j by blast+
  have v2: "close_count 0 (run example_platform ?rest ?t') = 1"
    and v3: "calls_of 0 (run example_platform ?rest ?t') = calls_of 0 ?s"
    using t2 by blast+
  have w: "ops ?s = [Constructed 0 ''ws://a/live'']" "calls_of 0 ?s = [(0, 7, JBool True)]"
    unfolding s by (simp_all add: calls_of_def)
  have x1: "ops ?s' = [Constructed 0 ''ws://a/live'', CloseCalled 0, Constructed 1 ''ws://b/live'']"
    unfolding u1 w by simp
  have x3: "calls_of 0 (run example_platform ?rest ?s') = [(0, 7, JBool True)]"
    unfolding u3 w by simp
  have y3: "calls_of 0 (run example_platform ?rest ?t') = [(0, 7, JBool True)]"
    unfolding v3 w by simp
  show ?thesis
    unfolding run1 run2 run3
    using a b c d e f g h i j h2 i2 j2 x1 u2 x3 v2 y3
    by (intro conjI) assumption+
qed

subsection \<open>Teardown, once\<close>

lemma cleanup_issues_close:
  "wsRef s = Some i \<Longrightarrow> ops (useWs_cleanup h s) = ops s @ [CloseCalled i]"
  by (simp add: useWs_cleanup_def ws_close_def Let_def)

text \<open>
  Claim C6 as stated fails: the cleanup function is not idempotent. Run a second
  time right after the first, it issues a second \<^verbatim>\<open>close()\<close> on the same socket. Run
  again after the next effect has stored its socket in the ref cell, the cleanup of
  the old handle closes the new, connecting socket, because it closes whatever the
  ref cell holds.
\<close>

theorem teardown_twice_counterexample:
  "close_count 0 (useWs_cleanup 0
     (run example_platform [Render (Some ''ws://a/live'') (Some 7)] hook_init)) = 1 \<and>
   close_count 0 (useWs_cleanup 0 (useWs_cleanup 0
     (run example_platform [Render (Some ''ws://a/live'') (Some 7)] hook_init))) = 2 \<and>
   ready (handles (run example_platform
     [Render (Some ''ws://a/live'') (Some 7), Render (Some ''ws://b/live'') (Some 7)] hook_init) ! 1) =
     CONNECTING \<and>
   ready (handles (useWs_cleanup 0 (run example_platform
     [Render (Some ''ws://a/live'') (Some 7), Render (Some ''ws://b/live'') (Some 7)] hook_init)) ! 1) =
     CLOSING \<and>
   ops (useWs_cleanup 0 (run example_platform
     [Render (Some ''ws://a/live'') (Some 7), Render (Some ''ws://b/live'') (Some 7)] hook_init)) =
     [Constructed 0 ''ws://a/live'', CloseCalled 0, Constructed 1 ''ws://b/live'', CloseCalled 1]"
  by (simp add: hook_init_def example_platform_def react_render_def run_pending_def
        useWs_effect_def useWs_cleanup_def ws_close_def kill_def closing_def modify_at_def
        close_count_def)

text \<open>
  Claim C6 as the code has it. It is the effect protocol that runs a teardown once:
  in every history no socket gets more than one \<^verbatim>\<open>close()\<close>, and unmounting twice is
  unmounting once. Unmounting a hook whose last effect returned no cleanup (empty
  endpoint, or failed construction) only marks it unmounted. The cleanup of a handle
  whose connection has terminated by itself clears \<^verbatim>\<open>alive\<close> and issues one
  \<^verbatim>\<open>close()\<close>, which a closing or closed socket ignores. Every run of a cleanup
  function issues a \<^verbatim>\<open>close()\<close> on the socket the ref cell holds at that time.
\<close>

theorem teardown_runs_once:
  "close_count h (run P es hook_init) \<le> 1 \<and>
   react_unmount (react_unmount s) = react_unmount s \<and>
   (\<not> unmounted s \<and> cleanup s = None \<longrightarrow> react_unmount s = s\<lparr>unmounted := True\<rparr>) \<and>
   (wsRef s = Some k \<and> k < length (handles s) \<and>
      (ready (handles s ! k) = CLOSING \<or> ready (handles s ! k) = CLOSED) \<longrightarrow>
    useWs_cleanup k s =
      s\<lparr>handles := modify_at k kill (handles s), ops := ops s @ [CloseCalled k]\<rparr>) \<and>
   (wsRef s = Some i \<longrightarrow> ops (useWs_cleanup k s) = ops s @ [CloseCalled i])"
proof -
  have "hook_inv hook_init"
    by (rule hook_inv_init)
  moreover have "ops_inv hook_init" and "close_count h hook_init = 0"
    by (simp_all add: ops_inv_def close_count_def hook_init_def)
  ultimately have once: "close_count h (run P es hook_init) \<le> 1"
    by (intro run_close_once) simp_all
  show ?thesis
    using once unmount_twice [of s] unmount_inert [of s] cleanup_after_termination [of s k]
      cleanup_issues_close [of s i k]
    by blast
qed

theorem teardown_runs_once_witness:
  "(let s = run example_platform
       [Render (Some ''ws://host/live'') (Some 7), SockOpen 0, SockClose 0, Render None (Some 7)]
       hook_init
    in \<not> unmounted s \<and> cleanup s = None \<and>
       wsRef s = Some 0 \<and> 0 < length (handles s) \<and> ready (handles s ! 0) = CLOSED \<and>
       react_unmount s = s\<lparr>unmounted := True\<rparr> \<and>
       useWs_cleanup 0 s = s\<lparr>handles := modify_at 0 kill (handles s), ops := ops s @ [CloseCalled 0]\<rparr> \<and>
       close_count 0 (run example_platform [Unmount, Unmount] s) \<le> 1)"
proof -
  let ?es = "[Render (Some ''ws://host/live'') (Some 7), SockOpen 0, SockClose 0, Render None (Some 7)]"
  let ?s = "run example_platform ?es hook_init"
  have s: "?s = \<lparr>wsRef = Some 0,
      handles = [\<lparr>ws_url = ''ws://host/live'', ready = CLOSED, alive = False, on_msg = Some 7\<rparr>],
      cleanup = None, deps = Some (None, Some 7), unmounted = False,
      console = [LogWsOpen, LogWsClosed],
      ops = [Constructed 0 ''ws://host/live'', CloseCalled 0], calls = []\<rparr>"
    by (simp add: hook_init_def example_platform_def react_render_def run_pending_def
          useWs_effect_def useWs_cleanup_def ws_close_def kill_def closing_def
          ws_onopen_def ws_onclose_def modify_at_def)
  have a: "\<not> unmounted ?s \<and> cleanup ?s = None"
    unfolding s by simp
  have b: "wsRef ?s = Some 0 \<and> 0 < length (handles ?s) \<and>
      (ready (handles ?s ! 0) = CLOSING \<or> ready (handles ?s ! 0) = CLOSED)"
    unfolding s by simp
  have c: "ready (handles ?s ! 0) = CLOSED"
    unfolding s by simp
  have r: "run example_platform [Unmount, Unmount] ?s = run example_platform (?es @ [Unmount, Unmount]) hook_init"
    by (simp only: run_append)
  note t1 = teardown_runs_once [of 0 example_platform "?es @ [Unmount, Unmount]" ?s 0 0]
  show ?thesis
    unfolding Let_def r
    using a b c t1 by blast
qed

section \<open>Properties of the REST views\<close>

lemma index_key_students: "index_key ''students'' = None"
  by (simp add: index_key_def digit_val_def)

lemma index_key_todays: "index_key ''todays'' = None"
  by (simp add: index_key_def digit_val_def)

lemma own_get_falsy: "\<not> truthy v \<Longrightarrow> own_get v k = None"
  by (cases v) (simp_all split: option.splits)

text \<open>Only an object can have the two fields; an array or a string has indices.\<close>

lemma own_get_fields:
  assumes "own_get v ''students'' \<noteq> None \<or> own_get v ''todays'' \<noteq> None"
  shows "\<exists>kvs. v = JObj kvs"
  using assms by (cases v) (simp_all add: index_key_students index_key_todays)

lemma object_assign_stats0:
  "object_assign stats0 v ''students'' =
     Some (case own_get v ''students'' of Some x \<Rightarrow> x | None \<Rightarrow> JNum 0)"
  "object_assign stats0 v ''todays'' =
     Some (case own_get v ''todays'' of Some x \<Rightarrow> x | None \<Rightarrow> JNum 0)"
  by (simp_all add: object_assign_def stats0_def split: option.splits)

lemma dashboard_resolved_view:
  "dashboard_view (dashboard_step (Resolved r) dashboard_init) =
     commit [StatCards (db_stats (dashboard_step (Resolved r) dashboard_init) ''students'')
                       (db_stats (dashboard_step (Resolved r) dashboard_init) ''todays'')]"
  by (simp add: dashboard_init_def dashboard_finally_def dashboard_view_def)

text \<open>
  Claim C9. After a successful summary response the statistics object of a mounted
  Dashboard holds, for \<^verbatim>\<open>students\<close> and for \<^verbatim>\<open>todays\<close>, the field of the body when the
  body has it and \<open>0\<close> when it has not. These two values are what the view puts on
  display; the render succeeds unless one of them is a plain object, which the
  runtime refuses as a child.
\<close>

theorem summary_fields_default_to_zero:
  "db_stats (dashboard_step (Resolved r) dashboard_init) ''students'' =
     Some (case own_get (r_data r) ''students'' of Some x \<Rightarrow> x | None \<Rightarrow> JNum 0) \<and>
   db_stats (dashboard_step (Resolved r) dashboard_init) ''todays'' =
     Some (case own_get (r_data r) ''todays'' of Some x \<Rightarrow> x | None \<Rightarrow> JNum 0) \<and>
   dashboard_view (dashboard_step (Resolved r) dashboard_init) =
     (if valid_child (case own_get (r_data r) ''students'' of Some x \<Rightarrow> x | None \<Rightarrow> JNum 0) \<and>
         valid_child (case own_get (r_data r) ''todays'' of Some x \<Rightarrow> x | None \<Rightarrow> JNum 0)
      then Inr [StatCards
        (Some (case own_get (r_data r) ''students'' of Some x \<Rightarrow> x | None \<Rightarrow> JNum 0))
        (Some (case own_get (r_data r) ''todays'' of Some x \<Rightarrow> x | None \<Rightarrow> JNum 0))]
      else Inl InvalidChild)"
proof -
  let ?s = "dashboard_step (Resolved r) dashboard_init"
  have st: "db_stats ?s ''students'' =
      Some (case own_get (r_data r) ''students'' of Some x \<Rightarrow> x | None \<Rightarrow> JNum 0) \<and>
    db_stats ?s ''todays'' =
      Some (case own_get (r_data r) ''todays'' of Some x \<Rightarrow> x | None \<Rightarrow> JNum 0)"
  proof (cases "truthy (r_data r)")
    case True
    then show ?thesis
      by (simp add: dashboard_init_def dashboard_finally_def object_assign_stats0)
  next
    case False
    then have "own_get (r_data r) ''students'' = None" "own_get (r_data r) ''todays'' = None"
      by (simp_all add: own_get_falsy)
    then show ?thesis
      using False by (simp add: dashboard_init_def dashboard_finally_def stats0_def)
  qed
  have "dashboard_view ?s = commit [StatCards (db_stats ?s ''students'') (db_stats ?s ''todays'')]"
    by (rule dashboard_resolved_view)
  then show ?thesis
    using st by (simp add: commit_def)
qed

theorem summary_fields_default_to_zero_witness:
  "dashboard_view (dashboard_step
      (Resolved \<lparr>r_status = 200, r_data = JObj [(''students'', JNum 12)]\<rparr>) dashboard_init) =
     Inr [StatCards (Some (JNum 12)) (Some (JNum 0))] \<and>
   dashboard_view (dashboard_step
      (Resolved \<lparr>r_status = 200, r_data = JObj [(''students'', JObj [(''n'', JNum 12)])]\<rparr>)
      dashboard_init) = Inl InvalidChild"
  using summary_fields_default_to_zero
    [of "\<lparr>r_status = 200, r_data = JObj [(''students'', JNum 12)]\<rparr>"]
    summary_fields_default_to_zero
    [of "\<lparr>r_status = 200, r_data = JObj [(''students'', JObj [(''n'', JNum 12)])]\<rparr>"]
  by simp

lemma logs_step_array: "isArray (lg_logs s) \<Longrightarrow> isArray (lg_logs (logs_step e s))"
  by (cases e) (simp_all add: logs_finally_def)

lemma logs_run_array: "isArray (lg_logs s) \<Longrightarrow> isArray (lg_logs (logs_run es s))"
  by (induction es arbitrary: s) (simp_all add: logs_step_array)

text \<open>
  Claim C10. The stored log list of the Logs view is an array in every state,
  whatever settles and in whatever order; a successful response whose body is not an
  array stores the empty list, and the view shows the empty-state message alone.
\<close>

theorem logs_always_array:
  "isArray (lg_logs (logs_run es logs_init)) \<and>
   (\<not> isArray (r_data r) \<longrightarrow>
      lg_logs (logs_step (Resolved r) logs_init) = JArr [] \<and>
      logs_view (logs_step (Resolved r) logs_init) = Inr [EmptyNode])"
proof -
  have "isArray (lg_logs logs_init)"
    by (simp add: logs_init_def)
  then have "isArray (lg_logs (logs_run es logs_init))"
    by (rule logs_run_array)
  then show ?thesis
    by (simp add: logs_init_def logs_finally_def logs_view_def commit_def)
qed

theorem logs_always_array_witness:
  "\<not> isArray (JObj [(''detail'', JStr ''Not Found'')]) \<and>
   isArray (lg_logs (logs_run
     [Resolved \<lparr>r_status = 200, r_data = JObj [(''detail'', JStr ''Not Found'')]\<rparr>] logs_init)) \<and>
   lg_logs (logs_step
     (Resolved \<lparr>r_status = 200, r_data = JObj [(''detail'', JStr ''Not Found'')]\<rparr>) logs_init) = JArr [] \<and>
   logs_view (logs_step
     (Resolved \<lparr>r_status = 200, r_data = JObj [(''detail'', JStr ''Not Found'')]\<rparr>) logs_init) =
     Inr [EmptyNode]"
proof -
  have a: "\<not> isArray (r_data \<lparr>r_status = 200, r_data = JObj [(''detail'', JStr ''Not Found'')]\<rparr>)"
    by simp
  show ?thesis
    using a logs_always_array
      [of "[Resolved \<lparr>r_status = 200, r_data = JObj [(''detail'', JStr ''Not Found'')]\<rparr>]"
          "\<lparr>r_status = 200, r_data = JObj [(''detail'', JStr ''Not Found'')]\<rparr>"]
    by simp
qed

lemma commit_member:
  "commit ns = Inr ms \<Longrightarrow> ms = ns"
  by (simp add: commit_def split: if_splits)

lemma students_rejected:
  assumes "st_mounted s"
  shows "students_step (Rejected e) s = s\<lparr>st_err := Some (surfaced e), st_loading := False\<rparr>"
  using assms by (simp add: students_finally_def)

lemma logs_rejected:
  assumes "lg_mounted s"
  shows "logs_step (Rejected e) s = s\<lparr>lg_err := Some (surfaced e), lg_loading := False\<rparr>"
  using assms by (simp add: logs_finally_def)

lemma students_view_shows_error:
  assumes "st_err s = Some x" "students_view s = Inr ns"
  shows "error_block x \<in> set ns"
proof (cases "st_list s")
  case (JArr xs)
  then obtain ms where "commit ms = Inr ns" and "error_block x \<in> set ms"
    using assms by (auto simp: students_view_def split: if_splits)
  then show ?thesis
    using commit_member by blast
qed (use assms in \<open>simp_all add: students_view_def\<close>)

lemma logs_view_shows_error:
  assumes "lg_err s = Some x" "logs_view s = Inr ns"
  shows "error_block x \<in> set ns"
proof (cases "lg_logs s")
  case (JArr xs)
  then obtain ms where "commit ms = Inr ns" and "error_block x \<in> set ms"
    using assms by (auto simp: logs_view_def split: if_splits)
  then show ?thesis
    using commit_member by blast
qed (use assms in \<open>simp_all add: logs_view_def\<close>)

text \<open>
  Claim C7 as stated fails twice. The summary view does show a fetch error: a
  network error on a mounted Dashboard is rendered as an error card. And a roster
  or logs view that has been unmounted drops a fetch error: nothing is stored,
  nothing is logged.
\<close>

theorem summary_error_counterexample:
  "dashboard_view (dashboard_step
      (Rejected \<lparr>e_message = ''Network Error'', e_response = None\<rparr>) dashboard_init) =
     Inr [ErrorCard ''Network Error''] \<and>
   students_step (Rejected \<lparr>e_message = ''Network Error'', e_response = None\<rparr>)
      (students_step Unmounted students_init) = students_step Unmounted students_init \<and>
   logs_step (Rejected \<lparr>e_message = ''Network Error'', e_response = None\<rparr>)
      (logs_step Unmounted logs_init) = logs_step Unmounted logs_init"
  by (simp add: dashboard_init_def dashboard_finally_def dashboard_view_def commit_def
        students_init_def students_finally_def logs_init_def logs_finally_def)

text \<open>
  Claim C7 as the code has it. A fetch error of the summary view is always logged;
  on a mounted Dashboard it is also shown, as an error card with the message alone
  (or \<^verbatim>\<open>Not available\<close> when the message is empty), without HTTP status or body; on
  an unmounted one the log entry is all that happens. A fetch error of a mounted
  roster or logs view is stored with its message and, when the server answered, the
  HTTP status and the body of the response, and whenever the view renders, its
  error block is in it: the status after \<^verbatim>\<open>HTTP:\<close> and the body below it when there is
  a response, \<^verbatim>\<open>n/a\<close> and no body when there is none. At the first settlement the
  error block is all the view shows. An unmounted roster or logs view is left as
  it is.
\<close>

theorem fetch_errors_surfaced:
  "db_console (dashboard_step (Rejected e) d) =
     db_console d @ [if e_message e \<noteq> [] then WarnMessage (e_message e) else WarnError e] \<and>
   (db_mounted d \<longrightarrow>
      dashboard_view (dashboard_step (Rejected e) d) =
        Inr [ErrorCard (if e_message e \<noteq> [] then e_message e else ''Not available'')]) \<and>
   (\<not> db_mounted d \<longrightarrow>
      dashboard_step (Rejected e) d =
        d\<lparr>db_console := db_console d @
             [if e_message e \<noteq> [] then WarnMessage (e_message e) else WarnError e]\<rparr>) \<and>
   (st_mounted s \<longrightarrow>
      st_err (students_step (Rejected e) s) =
        Some \<lparr>message = e_message e, status = map_option r_status (e_response e),
              data = map_option r_data (e_response e)\<rparr> \<and>
      (\<forall>ns. students_view (students_step (Rejected e) s) = Inr ns \<longrightarrow>
         error_block (surfaced e) \<in> set ns)) \<and>
   (\<not> st_mounted s \<longrightarrow> students_step (Rejected e) s = s) \<and>
   (lg_mounted l \<longrightarrow>
      lg_err (logs_step (Rejected e) l) =
        Some \<lparr>message = e_message e, status = map_option r_status (e_response e),
              data = map_option r_data (e_response e)\<rparr> \<and>
      (\<forall>ns. logs_view (logs_step (Rejected e) l) = Inr ns \<longrightarrow>
         error_block (surfaced e) \<in> set ns)) \<and>
   (\<not> lg_mounted l \<longrightarrow> logs_step (Rejected e) l = l) \<and>
   students_view (students_step (Rejected e) students_init) = Inr [error_block (surfaced e)] \<and>
   logs_view (logs_step (Rejected e) logs_init) = Inr [error_block (surfaced e)] \<and>
   (e_response e = None \<longrightarrow>
      error_block (surfaced e) = ErrorNode (e_message e) NotAvailable None) \<and>
   (e_response e = Some r \<and> r_status r \<noteq> 0 \<longrightarrow>
      error_block (surfaced e) = ErrorNode (e_message e) (StatusText (r_status r)) (Some (r_data r)))"
proof -
  have dash: "db_console (dashboard_step (Rejected e) d) =
     db_console d @ [if e_message e \<noteq> [] then WarnMessage (e_message e) else WarnError e] \<and>
   (db_mounted d \<longrightarrow>
      dashboard_view (dashboard_step (Rejected e) d) =
        Inr [ErrorCard (if e_message e \<noteq> [] then e_message e else ''Not available'')]) \<and>
   (\<not> db_mounted d \<longrightarrow>
      dashboard_step (Rejected e) d =
        d\<lparr>db_console := db_console d @
             [if e_message e \<noteq> [] then WarnMessage (e_message e) else WarnError e]\<rparr>)"
    by (simp add: dashboard_finally_def dashboard_view_def commit_def Let_def)
  have stu: "st_mounted s \<longrightarrow>
      st_err (students_step (Rejected e) s) =
        Some \<lparr>message = e_message e, status = map_option r_status (e_response e),
              data = map_option r_data (e_response e)\<rparr> \<and>
      (\<forall>ns. students_view (students_step (Rejected e) s) = Inr ns \<longrightarrow>
         error_block (surfaced e) \<in> set ns)"
  proof
    assume m: "st_mounted s"
    have "st_err (students_step (Rejected e) s) = Some (surfaced e)"
      unfolding students_rejected [OF m] by simp
    then show "st_err (students_step (Rejected e) s) =
        Some \<lparr>message = e_message e, status = map_option r_status (e_response e),
              data = map_option r_data (e_response e)\<rparr> \<and>
      (\<forall>ns. students_view (students_step (Rejected e) s) = Inr ns \<longrightarrow>
         error_block (surfaced e) \<in> set ns)"
      using students_view_shows_error [of "students_step (Rejected e) s" "surfaced e"]
      by (simp add: surfaced_def)
  qed
  have lgs: "lg_mounted l \<longrightarrow>
      lg_err (logs_step (Rejected e) l) =
        Some \<lparr>message = e_message e, status = map_option r_status (e_response e),
              data = map_option r_data (e_response e)\<rparr> \<and>
      (\<forall>ns. logs_view (logs_step (Rejected e) l) = Inr ns \<longrightarrow>
         error_block (surfaced e) \<in> set ns)"
  proof
    assume m: "lg_mounted l"
    have "lg_err (logs_step (Rejected e) l) = Some (surfaced e)"
      unfolding logs_rejected [OF m] by simp
    then show "lg_err (logs_step (Rejected e) l) =
        Some \<lparr>message = e_message e, status = map_option r_status (e_response e),
              data = map_option r_data (e_response e)\<rparr> \<and>
      (\<forall>ns. logs_view (logs_step (Rejected e) l) = Inr ns \<longrightarrow>
         error_block (surfaced e) \<in> set ns)"
      using logs_view_shows_error [of "logs_step (Rejected e) l" "surfaced e"]
      by (simp add: surfaced_def)
  qed
  have un: "(\<not> st_mounted s \<longrightarrow> students_step (Rejected e) s = s) \<and>
      (\<not> lg_mounted l \<longrightarrow> logs_step (Rejected e) l = l)"
    by (simp add: students_finally_def logs_finally_def)
  have ini: "students_view (students_step (Rejected e) students_init) = Inr [error_block (surfaced e)] \<and>
      logs_view (logs_step (Rejected e) logs_init) = Inr [error_block (surfaced e)]"
    by (simp add: students_init_def students_finally_def students_view_def
          logs_init_def logs_finally_def logs_view_def commit_def error_block_def)
  have blk: "(e_response e = None \<longrightarrow>
      error_block (surfaced e) = ErrorNode (e_message e) NotAvailable None) \<and>
   (e_response e = Some r \<and> r_status r \<noteq> 0 \<longrightarrow>
      error_block (surfaced e) = ErrorNode (e_message e) (StatusText (r_status r)) (Some (r_data r)))"
    by (simp add: surfaced_def error_block_def)
  show ?thesis
    using dash stu lgs un ini blk by (elim conjE, intro conjI) assumption+
qed

theorem fetch_errors_surfaced_witness:
  "db_mounted dashboard_init \<and> st_mounted students_init \<and> lg_mounted logs_init \<and>
   \<not> db_mounted (dashboard_step Unmounted dashboard_init) \<and>
   \<not> st_mounted (students_step Unmounted students_init) \<and>
   \<not> lg_mounted (logs_step Unmounted logs_init) \<and>
   e_response \<lparr>e_message = ''Request failed with status code 500'',
       e_response = Some \<lparr>r_status = 500, r_data = JObj [(''detail'', JStr ''boom'')]\<rparr>\<rparr> =
     Some \<lparr>r_status = 500, r_data = JObj [(''detail'', JStr ''boom'')]\<rparr> \<and>
   r_status \<lparr>r_status = 500, r_data = JObj [(''detail'', JStr ''boom'')]\<rparr> \<noteq> 0 \<and>
   e_response \<lparr>e_message = ''Network Error'', e_response = None\<rparr> = None \<and>
   students_view (students_step (Rejected
      \<lparr>e_message = ''Request failed with status code 500'',
       e_response = Some \<lparr>r_status = 500, r_data = JObj [(''detail'', JStr ''boom'')]\<rparr>\<rparr>)
      students_init) =
     Inr [ErrorNode ''Request failed with status code 500'' (StatusText 500)
            (Some (JObj [(''detail'', JStr ''boom'')]))] \<and>
   logs_view (logs_step (Rejected \<lparr>e_message = ''Network Error'', e_response = None\<rparr>) logs_init) =
     Inr [ErrorNode ''Network Error'' NotAvailable None] \<and>
   dashboard_view (dashboard_step (Rejected
      \<lparr>e_message = ''Request failed with status code 500'',
       e_response = Some \<lparr>r_status = 500, r_data = JObj [(''detail'', JStr ''boom'')]\<rparr>\<rparr>)
      dashboard_init) =
     Inr [ErrorCard ''Request failed with status code 500''] \<and>
   db_console (dashboard_step (Rejected \<lparr>e_message = ''Network Error'', e_response = None\<rparr>)
      (dashboard_step Unmounted dashboard_init)) = [WarnMessage ''Network Error''] \<and>
   students_step (Rejected \<lparr>e_message = ''Network Error'', e_response = None\<rparr>)
      (students_step Unmounted students_init) = students_step Unmounted students_init"
proof -
  let ?r = "\<lparr>r_status = 500, r_data = JObj [(''detail'', JStr ''boom'')]\<rparr>"
  let ?e = "\<lparr>e_message = ''Request failed with status code 500'', e_response = Some ?r\<rparr>"
  let ?n = "\<lparr>e_message = ''Network Error'', e_response = None\<rparr>"
  have m: "db_mounted dashboard_init" "st_mounted students_init" "lg_mounted logs_init"
    by (simp_all add: dashboard_init_def students_init_def logs_init_def)
  have u: "\<not> db_mounted (dashboard_step Unmounted dashboard_init)"
    "\<not> st_mounted (students_step Unmounted students_init)"
    "\<not> lg_mounted (logs_step Unmounted logs_init)"
    by simp_all
  have a: "e_response ?e = Some ?r" "r_status ?r \<noteq> 0" "e_response ?n = None"
    by simp_all
  have c: "db_console (dashboard_step Unmounted dashboard_init) = []"
    by (simp add: dashboard_init_def)
  note t1 = fetch_errors_surfaced [of ?e dashboard_init students_init logs_init ?r]
  note t2 = fetch_errors_surfaced [of ?n "dashboard_step Unmounted dashboard_init"
      "students_step Unmounted students_init" "logs_step Unmounted logs_init" ?r]
  note t3 = fetch_errors_surfaced [of ?n dashboard_init students_init logs_init ?r]
  have v1: "students_view (students_step (Rejected ?e) students_init) =
      Inr [error_block (surfaced ?e)]"
    and v2: "error_block (surfaced ?e) = ErrorNode (e_message ?e) (StatusText (r_status ?r)) (Some (r_data ?r))"
    and v3: "dashboard_view (dashboard_step (Rejected ?e) dashboard_init) =
        Inr [ErrorCard (if e_message ?e \<noteq> [] then e_message ?e else ''Not available'')]"
    using t1 m a by blast+
  have v4: "logs_view (logs_step (Rejected ?n) logs_init) = Inr [error_block (surfaced ?n)]"
    and v5: "error_block (surfaced ?n) = ErrorNode (e_message ?n) NotAvailable None"
    using t3 a by blast+
  have v6: "db_console (dashboard_step (Rejected ?n) (dashboard_step Unmounted dashboard_init)) =
      db_console (dashboard_step Unmounted dashboard_init) @
        [if e_message ?n \<noteq> [] then WarnMessage (e_message ?n) else WarnError ?n]"
    and v7: "students_step (Rejected ?n) (students_step Unmounted students_init) =
      students_step Unmounted students_init"
    using t2 u by blast+
  have w1: "students_view (students_step (Rejected ?e) students_init) =
     Inr [ErrorNode ''Request failed with status code 500'' (StatusText 500)
            (Some (JObj [(''detail'', JStr ''boom'')]))]"
    unfolding v1 v2 by simp
  have w3: "dashboard_view (dashboard_step (Rejected ?e) dashboard_init) =
     Inr [ErrorCard ''Request failed with status code 500'']"
    unfolding v3 by simp
  have w4: "logs_view (logs_step (Rejected ?n) logs_init) =
     Inr [ErrorNode ''Network Error'' NotAvailable None]"
    unfolding v4 v5 by simp
  have w6: "db_console (dashboard_step (Rejected ?n) (dashboard_step Unmounted dashboard_init)) =
      [WarnMessage ''Network Error'']"
    unfolding v6 c by simp
  show ?thesis
    using m u a w1 w3 w4 w6 v7 by (intro conjI) assumption+
qed

text \<open>
  Claim C8 says every REST call carries the configured base URL and the timeout of
  10 seconds. The views call the default client: with the library's defaults, the
  roster request has no base URL and no timeout, unlike a request of \<open>api\<close>.
\<close>

theorem rest_calls_counterexample:
  "config (students_call axios_defaults) \<noteq> api Map.empty \<and>
   timeout (config (students_call axios_defaults)) = 0 \<and>
   baseURL (config (students_call axios_defaults)) = None \<and>
   timeout (api Map.empty) = 10000 \<and>
   baseURL (api Map.empty) = Some ''http://127.0.0.1:8000''"
  by (simp add: students_call_def axios_defaults_def api_def BACK_def)

text \<open>
  Claim C8 as the code has it. The client \<open>api\<close> has the base URL of the environment
  value \<^verbatim>\<open>REACT_APP_BACKEND\<close>, the loopback address \<^verbatim>\<open>http://127.0.0.1:8000\<close> when the
  value is unset or empty, and a timeout of 10000 milliseconds. The requests of the
  roster, logs and summary views go through the default client with a path each, and
  carry the configuration of that client, whatever \<open>api\<close> is.
\<close>

theorem rest_client_configuration:
  "api env = \<lparr>baseURL = Some (BACK env), timeout = 10000\<rparr> \<and>
   (env ''REACT_APP_BACKEND'' = None \<or> env ''REACT_APP_BACKEND'' = Some [] \<longrightarrow>
      BACK env = ''http://127.0.0.1:8000'') \<and>
   (env ''REACT_APP_BACKEND'' = Some v \<and> v \<noteq> [] \<longrightarrow> BACK env = v) \<and>
   rest_calls defaults =
     [\<lparr>config = defaults, path = ''/api/v1/students''\<rparr>,
      \<lparr>config = defaults, path = ''/api/v1/attendance/logs''\<rparr>,
      \<lparr>config = defaults, path = ''/api/v1/dashboard/summary''\<rparr>]"
  by (auto simp: api_def BACK_def rest_calls_def students_call_def logs_call_def
        dashboard_call_def)

theorem rest_client_configuration_witness:
  "(Map.empty ''REACT_APP_BACKEND'' = None \<or> Map.empty ''REACT_APP_BACKEND'' = Some []) \<and>
   BACK Map.empty = ''http://127.0.0.1:8000'' \<and>
   [''REACT_APP_BACKEND'' \<mapsto> ''http://10.0.0.5:8000''] ''REACT_APP_BACKEND'' =
     Some ''http://10.0.0.5:8000'' \<and>
   ''http://10.0.0.5:8000'' \<noteq> [] \<and>
   BACK [''REACT_APP_BACKEND'' \<mapsto> ''http://10.0.0.5:8000''] = ''http://10.0.0.5:8000'' \<and>
   api [''REACT_APP_BACKEND'' \<mapsto> ''http://10.0.0.5:8000''] =
     \<lparr>baseURL = Some ''http://10.0.0.5:8000'', timeout = 10000\<rparr> \<and>
   map config (rest_calls axios_defaults) = [axios_defaults, axios_defaults, axios_defaults]"
proof -
  have a: "(Map.empty :: string \<rightharpoonup> string) ''REACT_APP_BACKEND'' = None \<or>
      (Map.empty :: string \<rightharpoonup> string) ''REACT_APP_BACKEND'' = Some []"
    by simp
  have b: "[''REACT_APP_BACKEND'' \<mapsto> ''http://10.0.0.5:8000''] ''REACT_APP_BACKEND'' =
     Some ''http://10.0.0.5:8000'' \<and> ''http://10.0.0.5:8000'' \<noteq> []"
    by simp
  show ?thesis
    using a b
      rest_client_configuration [of Map.empty "''http://10.0.0.5:8000''" axios_defaults]
      rest_client_configuration [of "[''REACT_APP_BACKEND'' \<mapsto> ''http://10.0.0.5:8000'']"
         "''http://10.0.0.5:8000''" axios_defaults]
    by simp
qed

end
